theory Spec2Isabelle
  imports Complex_Main
begin

section \<open>Keys: Python numbers\<close>

text \<open>
  The keys of a SliceMap are Python numbers (\<^verbatim>\<open>SupportsFloat\<close>): integers and floats, the
  floats \<^verbatim>\<open>float("inf")\<close>, \<^verbatim>\<open>-float("inf")\<close> and \<^verbatim>\<open>float("nan")\<close> among them. The
  code only compares keys; it never computes with them, and Python compares an integer
  with a float by their exact values. A finite key is therefore modelled by the real
  number it denotes.
\<close>

datatype key = NaN | NInf | Fin real | PInf

text \<open>
  Python's comparisons \<^verbatim>\<open><\<close> and \<^verbatim>\<open><=\<close>: the order of the numbers, and false as soon
  as one side is NaN. \<^verbatim>\<open>a > b\<close> is \<^verbatim>\<open>b < a\<close> and \<^verbatim>\<open>a >= b\<close> is \<^verbatim>\<open>b <= a\<close>.
\<close>

fun py_lt :: "key \<Rightarrow> key \<Rightarrow> bool" where
  "py_lt NaN y = False"
| "py_lt x NaN = False"
| "py_lt x NInf = False"
| "py_lt NInf y = True"
| "py_lt PInf y = False"
| "py_lt (Fin a) (Fin b) = (a < b)"
| "py_lt (Fin a) PInf = True"

fun py_le :: "key \<Rightarrow> key \<Rightarrow> bool" where
  "py_le NaN y = False"
| "py_le x NaN = False"
| "py_le NInf y = True"
| "py_le x PInf = True"
| "py_le PInf y = False"
| "py_le (Fin a) (Fin b) = (a \<le> b)"
| "py_le (Fin a) NInf = False"

definition py_gt :: "key \<Rightarrow> key \<Rightarrow> bool" where
  "py_gt a b = py_lt b a"

definition py_ge :: "key \<Rightarrow> key \<Rightarrow> bool" where
  "py_ge a b = py_le b a"

text \<open>
  For the proofs the type also carries a linear order, with NaN placed below every
  number: \<open>NaN < NInf < Fin a < PInf\<close>. It is a device of the proofs and not what the
  program computes: the definitions of the program's functions below use Python's
  comparisons only. On numbers the two agree (\<open>py_lt_iff\<close>, \<open>py_le_iff\<close>).
\<close>

instantiation key :: linorder
begin

fun less_eq_key :: "key \<Rightarrow> key \<Rightarrow> bool" where
  "less_eq_key NaN y = True"
| "less_eq_key x NaN = False"
| "less_eq_key NInf y = True"
| "less_eq_key x NInf = False"
| "less_eq_key x PInf = True"
| "less_eq_key PInf y = False"
| "less_eq_key (Fin a) (Fin b) = (a \<le> b)"

fun less_key :: "key \<Rightarrow> key \<Rightarrow> bool" where
  "less_key x NaN = False"
| "less_key NaN y = True"
| "less_key x NInf = False"
| "less_key NInf y = True"
| "less_key PInf y = False"
| "less_key x PInf = True"
| "less_key (Fin a) (Fin b) = (a < b)"

instance
proof
  fix x y z :: key
  show "(x < y) = (x \<le> y \<and> \<not> y \<le> x)"
    by (cases x; cases y) auto
  show "x \<le> x"
    by (cases x) auto
  show "x \<le> y \<Longrightarrow> y \<le> z \<Longrightarrow> x \<le> z"
    by (cases x; cases y; cases z) auto
  show "x \<le> y \<Longrightarrow> y \<le> x \<Longrightarrow> x = y"
    by (cases x; cases y) auto
  show "x \<le> y \<or> y \<le> x"
    by (cases x; cases y) auto
qed

end

section \<open>The data model\<close>

text \<open>
  \<^verbatim>\<open>@dataclass class Pair: up_to_key: SupportsFloat; value: Any = None\<close>.
  A value is any Python object; \<open>None\<close> of the option type is Python's \<^verbatim>\<open>None\<close>.
\<close>

record 'v pair =
  up_to_key :: key
  pvalue :: "'v option"

text \<open>
  The object: \<^verbatim>\<open>self.data\<close>, a \<^verbatim>\<open>SortedList\<close> ordered by \<^verbatim>\<open>up_to_key\<close>, kept as the
  list of its elements in list order, and \<^verbatim>\<open>self.include\<close>, the string given to the
  constructor.
\<close>

record 'v slicemap =
  data :: "'v pair list"
  include_policy :: string

datatype error = AssertionError | IndexError | TypeError

text \<open>A Python \<^verbatim>\<open>slice(start, stop, step)\<close>; each part may be \<^verbatim>\<open>None\<close>.\<close>

record pyslice =
  slice_start :: "key option"
  slice_stop :: "key option"
  slice_step :: "int option"

section \<open>The sorted list of the sortedcontainers library\<close>

text \<open>
  \<^verbatim>\<open>SortedList(key=lambda x: x.up_to_key)\<close> is a \<^verbatim>\<open>SortedKeyList\<close> of the library
  sortedcontainers. Its searches and its insertion are binary searches by Python's
  \<^verbatim>\<open>bisect\<close> module, which only asks whether one key is \<^verbatim>\<open><\<close> another; they are
  modelled as the library performs them, so that they are defined on a list that holds
  a NaN and for a NaN that is looked up, where no order decides the result.

  The loop of \<^verbatim>\<open>bisect_left(a, x)\<close> and \<^verbatim>\<open>bisect_right(a, x)\<close>:
  \<^verbatim>\<open>while lo < hi: mid = (lo + hi) // 2; if go_right(a[mid]): lo = mid + 1 else: hi = mid\<close>,
  where \<^verbatim>\<open>bisect_left\<close> goes right when \<^verbatim>\<open>a[mid] < x\<close> and \<^verbatim>\<open>bisect_right\<close> goes right
  unless \<^verbatim>\<open>x < a[mid]\<close>.
\<close>

function bsearch :: "(key \<Rightarrow> bool) \<Rightarrow> key list \<Rightarrow> nat \<Rightarrow> nat \<Rightarrow> nat" where
  "bsearch go_right a lo hi =
     (if lo < hi
      then (if go_right (a ! ((lo + hi) div 2))
            then bsearch go_right a ((lo + hi) div 2 + 1) hi
            else bsearch go_right a lo ((lo + hi) div 2))
      else lo)"
  by pat_completeness auto
termination
  by (relation "measure (\<lambda>(go_right, a, lo, hi). hi - lo)") auto

declare bsearch.simps [simp del]

definition py_bisect_left :: "key list \<Rightarrow> key \<Rightarrow> nat" where
  "py_bisect_left a x = bsearch (\<lambda>y. py_lt y x) a 0 (length a)"

definition py_bisect_right :: "key list \<Rightarrow> key \<Rightarrow> nat" where
  "py_bisect_right a x = bsearch (\<lambda>y. \<not> py_lt x y) a 0 (length a)"

text \<open>
  The library keeps the elements in sublists and, in \<^verbatim>\<open>_maxes\<close>, the last key of each
  sublist; a search first looks the key up in \<^verbatim>\<open>_maxes\<close> and then in one sublist. A
  list of up to 2000 elements (twice the load of 1000) is one sublist, and the model is
  of such a list: \<^verbatim>\<open>_maxes\<close> is empty for the empty list and holds the key of the last
  element otherwise.
\<close>

definition maxes :: "'v pair list \<Rightarrow> key list" where
  "maxes xs = (if xs = [] then [] else [up_to_key (last xs)])"

text \<open>
  \<^verbatim>\<open>bisect_left(value)\<close> and \<^verbatim>\<open>bisect_right(value)\<close>, that is \<^verbatim>\<open>bisect_key_left\<close> and
  \<^verbatim>\<open>bisect_key_right\<close> of the key of \<^verbatim>\<open>value\<close>:
  \<^verbatim>\<open>if not _maxes: return 0\<close>, \<^verbatim>\<open>pos = bisect(_maxes, key)\<close>,
  \<^verbatim>\<open>if pos == len(_maxes): return self._len\<close>, and else the search of the sublist.
\<close>

definition bisect_left :: "'v pair list \<Rightarrow> key \<Rightarrow> nat" where
  "bisect_left xs k =
     (if maxes xs = [] then 0
      else if py_bisect_left (maxes xs) k = length (maxes xs) then length xs
      else py_bisect_left (map up_to_key xs) k)"

definition bisect_right :: "'v pair list \<Rightarrow> key \<Rightarrow> nat" where
  "bisect_right xs k =
     (if maxes xs = [] then 0
      else if py_bisect_right (maxes xs) k = length (maxes xs) then length xs
      else py_bisect_right (map up_to_key xs) k)"

text \<open>
  \<^verbatim>\<open>add(value)\<close>: into the empty list; else \<^verbatim>\<open>pos = bisect_right(_maxes, key)\<close>, and the
  value is appended when \<^verbatim>\<open>pos == len(_maxes)\<close> and inserted at
  \<^verbatim>\<open>bisect_right(_keys[pos], key)\<close> otherwise.
\<close>

definition add :: "'v pair list \<Rightarrow> 'v pair \<Rightarrow> 'v pair list" where
  "add xs p =
     (if maxes xs = [] then [p]
      else if py_bisect_right (maxes xs) (up_to_key p) = length (maxes xs) then xs @ [p]
      else (let idx = py_bisect_right (map up_to_key xs) (up_to_key p)
            in take idx xs @ [p] @ drop idx xs))"

text \<open>
  Indexing and \<^verbatim>\<open>pop(i)\<close> go by position and follow Python: a negative index counts
  from the end, an index out of range raises \<^verbatim>\<open>IndexError\<close>.
\<close>

definition getidx :: "'a list \<Rightarrow> int \<Rightarrow> error + 'a" where
  "getidx xs idx =
     (if 0 \<le> idx \<and> idx < int (length xs) then Inr (xs ! nat idx)
      else if idx < 0 \<and> - int (length xs) \<le> idx then Inr (xs ! nat (int (length xs) + idx))
      else Inl IndexError)"

definition pop :: "'a list \<Rightarrow> nat \<Rightarrow> error + 'a list" where
  "pop xs i =
     (if i < length xs then Inr (take i xs @ drop (Suc i) xs) else Inl IndexError)"

text \<open>
  A key that is \<^verbatim>\<open>None\<close> (\<^verbatim>\<open>Pair(up_to_key=None)\<close>) cannot be compared with a
  number: the search raises \<^verbatim>\<open>TypeError\<close> at its first comparison. Only the search of
  an empty list compares nothing and returns 0.
\<close>

definition search_key ::
  "('v pair list \<Rightarrow> key \<Rightarrow> nat) \<Rightarrow> 'v pair list \<Rightarrow> key option \<Rightarrow> error + nat" where
  "search_key search_op xs ko =
     (case ko of
        Some k \<Rightarrow> Inr (search_op xs k)
      | None \<Rightarrow> if xs = [] then Inr 0 else Inl TypeError)"

section \<open>SliceMap\<close>

subsection \<open>\<^verbatim>\<open>__init__\<close>\<close>

definition SliceMap_init :: "string \<Rightarrow> error + 'v slicemap" where
  "SliceMap_init incl =
     (if \<not> (incl = ''start'' \<or> incl = ''end'') then Inl AssertionError
      else Inr \<lparr> data = add [] \<lparr> up_to_key = PInf, pvalue = None \<rparr>,
                 include_policy = incl \<rparr>)"

subsection \<open>\<^verbatim>\<open>export\<close> and \<^verbatim>\<open>__len__\<close>\<close>

definition export :: "'v slicemap \<Rightarrow> error + (key \<times> key \<times> 'v option) list" where
  "export self =
     (case getidx (data self) 0 of
        Inl e \<Rightarrow> Inl e
      | Inr p0 \<Rightarrow>
          Inr ((NInf, up_to_key p0, pvalue p0) #
               map (\<lambda>(p1, p2). (up_to_key p1, up_to_key p2, pvalue p2))
                   (zip (data self) (drop 1 (data self)))))"

definition len :: "'v slicemap \<Rightarrow> int" where
  "len self = int (length (data self)) - 1"

subsection \<open>\<^verbatim>\<open>__setitem__\<close>\<close>

text \<open>
  The removal loop, \<^verbatim>\<open>for _ in range(n): ... self.data.pop(start_key_idx)\<close>. Each
  round first reads \<^verbatim>\<open>self.data[start_key_idx]\<close> (the arguments of the logging call
  are evaluated whether or not the message is printed) and then pops that index.
\<close>

fun pop_loop :: "nat \<Rightarrow> nat \<Rightarrow> 'a list \<Rightarrow> error + 'a list" where
  "pop_loop 0 i xs = Inr xs"
| "pop_loop (Suc n) i xs =
     (case getidx xs (int i) of
        Inl e \<Rightarrow> Inl e
      | Inr logged \<Rightarrow>
          (case pop xs i of
             Inl e \<Rightarrow> Inl e
           | Inr xs' \<Rightarrow> pop_loop n i xs'))"

text \<open>
  Lines 79 to 95: the two searches, the value to keep and the removal loop, for the
  bounds \<open>start\<close> and \<open>stop\<close> already read from the slice. The result is the value to
  keep and the list after the loop. \<^verbatim>\<open>range\<close> of a negative number is empty.
\<close>

definition remove_covered ::
  "'v pair list \<Rightarrow> key \<Rightarrow> key \<Rightarrow> error + ('v option \<times> 'v pair list)" where
  "remove_covered xs start stop =
     (let start_key_idx = bisect_left xs start;
          end_key_idx = bisect_right xs stop;
          old_value_to_keep =
            (if start_key_idx < length xs then pvalue (xs ! start_key_idx) else None);
          num_el_to_remove = int end_key_idx - int start_key_idx
      in case pop_loop (nat num_el_to_remove) start_key_idx xs of
           Inl e \<Rightarrow> Inl e
         | Inr xs' \<Rightarrow> Inr (old_value_to_keep, xs'))"

definition setitem :: "'v slicemap \<Rightarrow> pyslice \<Rightarrow> 'v option \<Rightarrow> error + 'v slicemap" where
  "setitem self slice_key v =
     (if \<not> (slice_step slice_key = Some 1 \<or> slice_step slice_key = None)
      then Inl AssertionError
      else
        let start = (case slice_start slice_key of Some a \<Rightarrow> a | None \<Rightarrow> NInf);
            stop = (case slice_stop slice_key of Some b \<Rightarrow> b | None \<Rightarrow> PInf)
        in if py_ge start stop then Inr self
           else
             case remove_covered (data self) start stop of
               Inl e \<Rightarrow> Inl e
             | Inr (old_value_to_keep, xs') \<Rightarrow>
                 let xs1 = (if py_gt start NInf
                            then add xs' \<lparr> up_to_key = start, pvalue = old_value_to_keep \<rparr>
                            else xs');
                     xs2 = add xs1 \<lparr> up_to_key = stop, pvalue = v \<rparr>
                 in Inr (self \<lparr> data := xs2 \<rparr>))"

subsection \<open>\<^verbatim>\<open>__getitem__\<close>\<close>

text \<open>
  The argument is a number or a slice; the result a single value or a tuple of values.
  A slice is equal to no float, so it passes the first two tests, and so does NaN.
\<close>

datatype query = Scalar key | Slice "key option" "key option"

datatype 'v answer = Single "'v option" | Tuple "'v option list"

text \<open>
  \<^verbatim>\<open>tuple(self.data[i].value for i in range(idx1, idx2 + 1))\<close>: the indices in
  ascending order, stopping with the error of the first index out of range.
\<close>

fun values_at :: "'v pair list \<Rightarrow> nat list \<Rightarrow> error + 'v option list" where
  "values_at xs [] = Inr []"
| "values_at xs (i # is) =
     (case getidx xs (int i) of
        Inl e \<Rightarrow> Inl e
      | Inr p \<Rightarrow>
          (case values_at xs is of
             Inl e \<Rightarrow> Inl e
           | Inr vs \<Rightarrow> Inr (pvalue p # vs)))"

definition search_op :: "'v slicemap \<Rightarrow> 'v pair list \<Rightarrow> key \<Rightarrow> nat" where
  "search_op self = (if include_policy self = ''start'' then bisect_right else bisect_left)"

definition getitem :: "'v slicemap \<Rightarrow> query \<Rightarrow> error + 'v answer" where
  "getitem self q =
     (if q = Scalar PInf then
        (case getidx (data self) (- 1) of Inl e \<Rightarrow> Inl e | Inr p \<Rightarrow> Inr (Single (pvalue p)))
      else if q = Scalar NInf then
        (case getidx (data self) 0 of Inl e \<Rightarrow> Inl e | Inr p \<Rightarrow> Inr (Single (pvalue p)))
      else
        (case q of
           Slice key_start key_stop \<Rightarrow>
             (case search_key (search_op self) (data self) key_start of
                Inl e \<Rightarrow> Inl e
              | Inr idx1 \<Rightarrow>
                  (case search_key (search_op self) (data self) key_stop of
                     Inl e \<Rightarrow> Inl e
                   | Inr idx2 \<Rightarrow>
                       (case values_at (data self) [idx1 ..< idx2 + 1] of
                          Inl e \<Rightarrow> Inl e
                        | Inr vs \<Rightarrow> Inr (Tuple vs))))
         | Scalar k \<Rightarrow>
             (case getidx (data self) (int (search_op self (data self) k)) of
                Inl e \<Rightarrow> Inl e
              | Inr p \<Rightarrow> Inr (Single (pvalue p)))))"

subsection \<open>A script of calls\<close>

text \<open>A statement after a call that raised is not run: the exception ends the script.\<close>

definition and_then :: "error + 'a \<Rightarrow> ('a \<Rightarrow> error + 'b) \<Rightarrow> error + 'b" where
  "and_then r f = (case r of Inl e \<Rightarrow> Inl e | Inr x \<Rightarrow> f x)"

text \<open>\<^verbatim>\<open>slice(a, b)\<close>, as in \<^verbatim>\<open>m[a:b] = v\<close>: no step.\<close>

definition bounds :: "key \<Rightarrow> key \<Rightarrow> pyslice" where
  "bounds a b = \<lparr> slice_start = Some a, slice_stop = Some b, slice_step = None \<rparr>"

section \<open>Reachable states and the container invariant\<close>

text \<open>
  The states the code reaches: a fresh map, and the state after a call of
  \<^verbatim>\<open>__setitem__\<close> that returned. A call that raises is not a step: the two assertions
  of \<^verbatim>\<open>__setitem__\<close> stand before its first change of \<^verbatim>\<open>self.data\<close>, and it raises
  nothing else (\<open>setitem_total\<close>).
\<close>

inductive reachable :: "'v slicemap \<Rightarrow> bool" where
  fresh: "SliceMap_init incl = Inr self \<Longrightarrow> reachable self"
| assign: "reachable self \<Longrightarrow> setitem self slice_key v = Inr self' \<Longrightarrow> reachable self'"

text \<open>
  The bounds \<^verbatim>\<open>start\<close> and \<^verbatim>\<open>stop\<close> that \<^verbatim>\<open>__setitem__\<close> reads from its slice
  (lines 71 and 72), and the states reached by assignments whose bounds are numbers,
  that is, not NaN.
\<close>

definition lower_bound :: "pyslice \<Rightarrow> key" where
  "lower_bound slice_key = (case slice_start slice_key of Some a \<Rightarrow> a | None \<Rightarrow> NInf)"

definition upper_bound :: "pyslice \<Rightarrow> key" where
  "upper_bound slice_key = (case slice_stop slice_key of Some b \<Rightarrow> b | None \<Rightarrow> PInf)"

inductive numeric_reachable :: "'v slicemap \<Rightarrow> bool" where
  fresh: "SliceMap_init incl = Inr self \<Longrightarrow> numeric_reachable self"
| assign: "numeric_reachable self \<Longrightarrow> lower_bound slice_key \<noteq> NaN \<Longrightarrow>
           upper_bound slice_key \<noteq> NaN \<Longrightarrow> setitem self slice_key v = Inr self' \<Longrightarrow>
           numeric_reachable self'"

text \<open>
  The invariants of the container, in Python's comparisons: the keys ascend strictly,
  the list is not empty, its last element is the entry of \<^verbatim>\<open>float("inf")\<close>, and every
  key is above \<^verbatim>\<open>-float("inf")\<close> (so that no key is NaN).
\<close>

definition invar :: "'v slicemap \<Rightarrow> bool" where
  "invar self =
     (sorted_wrt (\<lambda>p q. py_lt (up_to_key p) (up_to_key q)) (data self) \<and>
      data self \<noteq> [] \<and>
      up_to_key (last (data self)) = PInf \<and>
      list_all (\<lambda>p. py_lt NInf (up_to_key p)) (data self))"

section \<open>Derived notions\<close>

text \<open>
  A list whose keys are numbers and ascend strictly. On such a list the searches of the
  library return what its documentation says: the index of the first element whose key
  is not below the key looked up (\<open>index_ge\<close>), or above it (\<open>index_gt\<close>).
\<close>

definition ascending :: "'v pair list \<Rightarrow> bool" where
  "ascending xs =
     (sorted_wrt (\<lambda>p q. py_lt (up_to_key p) (up_to_key q)) xs \<and>
      list_all (\<lambda>p. up_to_key p \<noteq> NaN) xs)"

definition index_ge :: "'v pair list \<Rightarrow> key \<Rightarrow> nat" where
  "index_ge xs k = length (takeWhile (\<lambda>p. up_to_key p < k) xs)"

definition index_gt :: "'v pair list \<Rightarrow> key \<Rightarrow> nat" where
  "index_gt xs k = length (takeWhile (\<lambda>p. up_to_key p \<le> k) xs)"

text \<open>
  The value found at \<open>start_key_idx\<close> (\<open>None\<close> past the end), and the list an
  assignment with \<open>start < stop\<close> produces: the entries below \<open>start\<close>, the entry
  re-inserted at \<open>start\<close>, the new entry at \<open>stop\<close>, and the entries above \<open>stop\<close>.
  \<open>setitem_eq\<close> proves that \<open>setitem\<close> computes them on a list with ascending keys.
\<close>

definition boundary_value :: "'v pair list \<Rightarrow> key \<Rightarrow> 'v option" where
  "boundary_value xs start =
     (case dropWhile (\<lambda>p. up_to_key p < start) xs of [] \<Rightarrow> None | p # _ \<Rightarrow> pvalue p)"

definition assigned :: "'v pair list \<Rightarrow> key \<Rightarrow> key \<Rightarrow> 'v option \<Rightarrow> 'v pair list" where
  "assigned xs start stop v =
     takeWhile (\<lambda>p. up_to_key p < start) xs @
     (if NInf < start then [\<lparr> up_to_key = start, pvalue = boundary_value xs start \<rparr>] else []) @
     \<lparr> up_to_key = stop, pvalue = v \<rparr> # dropWhile (\<lambda>p. up_to_key p \<le> stop) xs"

text \<open>
  The entries a search for \<open>k\<close> passes over: under \<^verbatim>\<open>include == "start"\<close> those with a
  key \<^verbatim>\<open><= k\<close> (\<^verbatim>\<open>bisect_right\<close>), otherwise those with a key \<^verbatim>\<open>< k\<close>
  (\<^verbatim>\<open>bisect_left\<close>); \<open>owner\<close> says it with Python's comparisons, \<open>passed\<close> with the
  order of the proofs. A point query returns the value of the first entry not passed
  over.
\<close>

definition owner :: "'v slicemap \<Rightarrow> key \<Rightarrow> 'v pair \<Rightarrow> bool" where
  "owner self k = (if include_policy self = ''start'' then (\<lambda>p. py_le (up_to_key p) k)
                   else (\<lambda>p. py_lt (up_to_key p) k))"

definition passed :: "'v slicemap \<Rightarrow> key \<Rightarrow> 'v pair \<Rightarrow> bool" where
  "passed self k = (if include_policy self = ''start'' then (\<lambda>p. up_to_key p \<le> k)
                    else (\<lambda>p. up_to_key p < k))"

text \<open>
  A state used to instantiate the theorems: the map after \<^verbatim>\<open>m[0:10] = "a"\<close> and
  \<^verbatim>\<open>m[10:20] = "b"\<close>.
\<close>

definition example_map :: "string \<Rightarrow> string slicemap" where
  "example_map incl =
     \<lparr> data = [\<lparr> up_to_key = Fin 0, pvalue = None \<rparr>,
                \<lparr> up_to_key = Fin 10, pvalue = Some ''a'' \<rparr>,
                \<lparr> up_to_key = Fin 20, pvalue = Some ''b'' \<rparr>,
                \<lparr> up_to_key = PInf, pvalue = None \<rparr>],
        include_policy = incl \<rparr>"

section \<open>Python's comparisons and the order of the proofs\<close>

lemma py_lt_iff: "py_lt a b \<longleftrightarrow> a \<noteq> NaN \<and> b \<noteq> NaN \<and> a < b"
  by (cases a; cases b) auto

lemma py_le_iff: "py_le a b \<longleftrightarrow> a \<noteq> NaN \<and> b \<noteq> NaN \<and> a \<le> b"
  by (cases a; cases b) auto

lemma NaN_least: "NaN \<le> k"
  by (cases k) auto

lemma key_le_PInf: "k \<le> PInf"
  by (cases k) auto

lemma not_PInf_less: "\<not> PInf < k"
  by (cases k) auto

lemma NInf_less_iff: "NInf < k \<longleftrightarrow> py_lt NInf k"
  by (cases k) auto

lemma less_not_NaN: "a < b \<Longrightarrow> b \<noteq> NaN"
  by (cases a; cases b) auto

section \<open>The binary search\<close>

lemma bsearch_step:
  "lo < hi \<Longrightarrow> bsearch g a lo hi =
     (if g (a ! ((lo + hi) div 2)) then bsearch g a ((lo + hi) div 2 + 1) hi
      else bsearch g a lo ((lo + hi) div 2))"
  by (subst bsearch.simps) simp

lemma bsearch_stop: "\<not> lo < hi \<Longrightarrow> bsearch g a lo hi = lo"
  by (subst bsearch.simps) simp

lemma bsearch_bounds: "lo \<le> hi \<Longrightarrow> lo \<le> bsearch g a lo hi \<and> bsearch g a lo hi \<le> hi"
proof (induction g a lo hi rule: bsearch.induct)
  case (1 g a lo hi)
  show ?case
  proof (cases "lo < hi")
    case False
    then show ?thesis using "1.prems" by (simp add: bsearch_stop)
  next
    case True
    let ?mid = "(lo + hi) div 2"
    have m: "lo \<le> ?mid" "?mid < hi" using True by auto
    show ?thesis
    proof (cases "g (a ! ?mid)")
      case True
      then have "?mid + 1 \<le> bsearch g a (?mid + 1) hi \<and> bsearch g a (?mid + 1) hi \<le> hi"
        using "1.IH"(1)[OF \<open>lo < hi\<close>] m by simp
      then show ?thesis using True \<open>lo < hi\<close> m by (simp add: bsearch_step)
    next
      case False
      then have "lo \<le> bsearch g a lo ?mid \<and> bsearch g a lo ?mid \<le> ?mid"
        using "1.IH"(2)[OF \<open>lo < hi\<close>] m by simp
      then show ?thesis using False \<open>lo < hi\<close> m by (simp add: bsearch_step)
    qed
  qed
qed

text \<open>
  Where the test of the search, once false, stays false further right in the list, the
  search returns the number of leading elements that pass the test.
\<close>

lemma bsearch_takeWhile_aux:
  assumes mono: "\<And>i j. i < j \<Longrightarrow> j < length a \<Longrightarrow> g (a ! j) \<Longrightarrow> g (a ! i)"
  shows "lo \<le> hi \<Longrightarrow> hi \<le> length a \<Longrightarrow> (\<forall>i<lo. g (a ! i)) \<Longrightarrow>
         (\<forall>i. hi \<le> i \<and> i < length a \<longrightarrow> \<not> g (a ! i)) \<Longrightarrow>
         bsearch g a lo hi = length (takeWhile g a)"
  using mono
proof (induction g a lo hi rule: bsearch.induct)
  case (1 g a lo hi)
  note mono = "1.prems"(5)
  show ?case
  proof (cases "lo < hi")
    case False
    then have eq: "lo = hi" using "1.prems"(1) by simp
    have "takeWhile g a = take lo a"
    proof (rule takeWhile_eq_take_P_nth)
      fix i assume "i < lo" "i < length a"
      then show "g (a ! i)" using "1.prems"(3) by simp
    next
      assume "lo < length a"
      then show "\<not> g (a ! lo)" using "1.prems"(4) eq by simp
    qed
    then have "length (takeWhile g a) = lo"
      using "1.prems"(2) eq by simp
    then show ?thesis using False by (simp add: bsearch_stop)
  next
    case True
    let ?mid = "(lo + hi) div 2"
    have m: "lo \<le> ?mid" "?mid < hi" using True by auto
    have ml: "?mid < length a" using m "1.prems"(2) by simp
    show ?thesis
    proof (cases "g (a ! ?mid)")
      case gm: True
      have left: "\<forall>i<?mid + 1. g (a ! i)"
      proof (intro allI impI)
        fix i assume "i < ?mid + 1"
        then have "i < ?mid \<or> i = ?mid" by auto
        then show "g (a ! i)" using gm mono[of i ?mid] ml by auto
      qed
      have "bsearch g a (?mid + 1) hi = length (takeWhile g a)"
        using "1.IH"(1)[OF True gm _ "1.prems"(2) left "1.prems"(4) mono] m by simp
      then show ?thesis using True gm by (simp add: bsearch_step)
    next
      case gm: False
      have right: "\<forall>i. ?mid \<le> i \<and> i < length a \<longrightarrow> \<not> g (a ! i)"
      proof (intro allI impI)
        fix i assume i: "?mid \<le> i \<and> i < length a"
        then have "?mid < i \<or> i = ?mid" by auto
        then show "\<not> g (a ! i)" using gm mono[of ?mid i] i by auto
      qed
      have "bsearch g a lo ?mid = length (takeWhile g a)"
        using "1.IH"(2)[OF True gm m(1) _ "1.prems"(3) right mono] ml by simp
      then show ?thesis using True gm by (simp add: bsearch_step)
    qed
  qed
qed

lemma bsearch_takeWhile:
  assumes "\<And>i j. i < j \<Longrightarrow> j < length a \<Longrightarrow> g (a ! j) \<Longrightarrow> g (a ! i)"
  shows "bsearch g a 0 (length a) = length (takeWhile g a)"
  using assms by (intro bsearch_takeWhile_aux) auto

lemma py_bisect_left_single: "py_bisect_left [m] k = (if py_lt m k then 1 else 0)"
  by (simp add: py_bisect_left_def bsearch_step bsearch_stop)

lemma py_bisect_right_single: "py_bisect_right [m] k = (if py_lt k m then 0 else 1)"
  by (simp add: py_bisect_right_def bsearch_step bsearch_stop)

lemma py_bisect_left_le: "py_bisect_left a x \<le> length a"
  using bsearch_bounds[of 0 "length a"] by (simp add: py_bisect_left_def)

lemma py_bisect_right_le: "py_bisect_right a x \<le> length a"
  using bsearch_bounds[of 0 "length a"] by (simp add: py_bisect_right_def)

lemma py_bisect_left_sorted:
  assumes "sorted_wrt (<) a" and "NaN \<notin> set a"
  shows "py_bisect_left a x = length (takeWhile (\<lambda>y. y < x) a)"
proof -
  have "bsearch (\<lambda>y. py_lt y x) a 0 (length a) = length (takeWhile (\<lambda>y. py_lt y x) a)"
  proof (rule bsearch_takeWhile)
    fix i j assume ij: "i < j" "j < length a" and g: "py_lt (a ! j) x"
    have "a ! i < a ! j" using assms(1) ij by (simp add: sorted_wrt_iff_nth_less)
    moreover have "a ! i \<noteq> NaN" using assms(2) ij by (metis less_trans nth_mem)
    ultimately show "py_lt (a ! i) x" using g by (auto simp: py_lt_iff)
  qed
  moreover have "takeWhile (\<lambda>y. py_lt y x) a = takeWhile (\<lambda>y. y < x) a"
    using assms(2) by (intro takeWhile_cong) (auto simp: py_lt_iff dest: less_not_NaN)
  ultimately show ?thesis by (simp add: py_bisect_left_def)
qed

lemma py_bisect_right_sorted:
  assumes "sorted_wrt (<) a" and "NaN \<notin> set a" and "x \<noteq> NaN"
  shows "py_bisect_right a x = length (takeWhile (\<lambda>y. y \<le> x) a)"
proof -
  have "bsearch (\<lambda>y. \<not> py_lt x y) a 0 (length a) = length (takeWhile (\<lambda>y. \<not> py_lt x y) a)"
  proof (rule bsearch_takeWhile)
    fix i j assume ij: "i < j" "j < length a" and g: "\<not> py_lt x (a ! j)"
    have "a ! i < a ! j" using assms(1) ij by (simp add: sorted_wrt_iff_nth_less)
    moreover have "a ! j \<noteq> NaN" using assms(2) ij by (metis nth_mem)
    ultimately show "\<not> py_lt x (a ! i)" using g assms(3) by (auto simp: py_lt_iff)
  qed
  moreover have "takeWhile (\<lambda>y. \<not> py_lt x y) a = takeWhile (\<lambda>y. y \<le> x) a"
    using assms(2,3) by (intro takeWhile_cong) (auto simp: py_lt_iff)
  ultimately show ?thesis by (simp add: py_bisect_right_def)
qed

section \<open>The searches on a list with ascending keys\<close>

lemma ascending_iff:
  "ascending xs \<longleftrightarrow>
   sorted_wrt (\<lambda>p q. up_to_key p < up_to_key q) xs \<and> (\<forall>p\<in>set xs. up_to_key p \<noteq> NaN)"
proof
  assume a: "ascending xs"
  then have "sorted_wrt (\<lambda>p q. py_lt (up_to_key p) (up_to_key q)) xs" by (simp add: ascending_def)
  then have "sorted_wrt (\<lambda>p q. up_to_key p < up_to_key q) xs"
    by (rule sorted_wrt_mono_rel[rotated]) (simp add: py_lt_iff)
  then show "sorted_wrt (\<lambda>p q. up_to_key p < up_to_key q) xs \<and> (\<forall>p\<in>set xs. up_to_key p \<noteq> NaN)"
    using a by (simp add: ascending_def list_all_iff)
next
  assume a: "sorted_wrt (\<lambda>p q. up_to_key p < up_to_key q) xs \<and> (\<forall>p\<in>set xs. up_to_key p \<noteq> NaN)"
  then have srt: "sorted_wrt (\<lambda>p q. up_to_key p < up_to_key q) xs" by simp
  have "sorted_wrt (\<lambda>p q. py_lt (up_to_key p) (up_to_key q)) xs"
    by (rule sorted_wrt_mono_rel[OF _ srt]) (use a in \<open>simp add: py_lt_iff\<close>)
  then show "ascending xs" using a by (simp add: ascending_def list_all_iff)
qed

lemma ascending_keys:
  assumes "ascending xs"
  shows "sorted_wrt (<) (map up_to_key xs)" and "NaN \<notin> set (map up_to_key xs)"
  using assms by (auto simp: ascending_iff sorted_wrt_map)

lemma sorted_le_last:
  "sorted_wrt (\<lambda>p q. up_to_key p < up_to_key q) xs \<Longrightarrow> p \<in> set xs \<Longrightarrow>
   up_to_key p \<le> up_to_key (last xs)"
proof (induction xs rule: rev_induct)
  case Nil
  then show ?case by simp
next
  case (snoc x xs)
  then show ?case by (auto simp: sorted_wrt_append less_imp_le)
qed

lemma takeWhile_whole: "(\<And>x. x \<in> set xs \<Longrightarrow> P x) \<Longrightarrow> takeWhile P xs = xs"
  by (induction xs) auto

lemma bisect_left_eq:
  assumes "ascending xs"
  shows "bisect_left xs k = index_ge xs k"
proof (cases "xs = []")
  case True
  then show ?thesis by (simp add: bisect_left_def maxes_def index_ge_def)
next
  case ne: False
  have srt: "sorted_wrt (\<lambda>p q. up_to_key p < up_to_key q) xs"
    using assms by (simp add: ascending_iff)
  have inner: "py_bisect_left (map up_to_key xs) k = index_ge xs k"
    using py_bisect_left_sorted[OF ascending_keys[OF assms], of k]
    by (simp add: index_ge_def takeWhile_map comp_def)
  show ?thesis
  proof (cases "py_lt (up_to_key (last xs)) k")
    case True
    then have "up_to_key (last xs) < k" by (simp add: py_lt_iff)
    then have "\<And>p. p \<in> set xs \<Longrightarrow> up_to_key p < k"
      using sorted_le_last[OF srt] by (meson le_less_trans)
    then have tw: "takeWhile (\<lambda>p. up_to_key p < k) xs = xs" by (rule takeWhile_whole)
    have "index_ge xs k = length xs" by (simp only: index_ge_def tw)
    then show ?thesis using True ne
      by (simp add: bisect_left_def maxes_def py_bisect_left_single)
  next
    case False
    then show ?thesis using ne inner
      by (simp add: bisect_left_def maxes_def py_bisect_left_single)
  qed
qed

lemma bisect_right_eq:
  assumes "ascending xs" and "k \<noteq> NaN"
  shows "bisect_right xs k = index_gt xs k"
proof (cases "xs = []")
  case True
  then show ?thesis by (simp add: bisect_right_def maxes_def index_gt_def)
next
  case ne: False
  have srt: "sorted_wrt (\<lambda>p q. up_to_key p < up_to_key q) xs"
    using assms by (simp add: ascending_iff)
  have lastn: "up_to_key (last xs) \<noteq> NaN"
    using assms ne by (simp add: ascending_iff)
  have inner: "py_bisect_right (map up_to_key xs) k = index_gt xs k"
    using py_bisect_right_sorted[OF ascending_keys[OF assms(1)] assms(2)]
    by (simp add: index_gt_def takeWhile_map comp_def)
  show ?thesis
  proof (cases "py_lt k (up_to_key (last xs))")
    case False
    then have "up_to_key (last xs) \<le> k" using assms(2) lastn by (simp add: py_lt_iff)
    then have "\<And>p. p \<in> set xs \<Longrightarrow> up_to_key p \<le> k"
      using sorted_le_last[OF srt] by (meson order_trans)
    then have tw: "takeWhile (\<lambda>p. up_to_key p \<le> k) xs = xs" by (rule takeWhile_whole)
    have "index_gt xs k = length xs" by (simp only: index_gt_def tw)
    then show ?thesis using False ne
      by (simp add: bisect_right_def maxes_def py_bisect_right_single)
  next
    case True
    then show ?thesis using ne inner
      by (simp add: bisect_right_def maxes_def py_bisect_right_single)
  qed
qed

lemma bisect_left_le_length: "bisect_left xs k \<le> length xs"
  using py_bisect_left_le[of "map up_to_key xs" k] by (simp add: bisect_left_def)

lemma bisect_right_le_length: "bisect_right xs k \<le> length xs"
  using py_bisect_right_le[of "map up_to_key xs" k] by (simp add: bisect_right_def)

lemma add_eq:
  assumes "ascending xs" and "up_to_key p \<noteq> NaN"
  shows "add xs p = takeWhile (\<lambda>q. up_to_key q \<le> up_to_key p) xs @
                    p # dropWhile (\<lambda>q. up_to_key q \<le> up_to_key p) xs"
proof (cases "xs = []")
  case True
  then show ?thesis by (simp add: add_def maxes_def)
next
  case ne: False
  let ?P = "\<lambda>q. up_to_key q \<le> up_to_key p"
  have srt: "sorted_wrt (\<lambda>p q. up_to_key p < up_to_key q) xs"
    using assms by (simp add: ascending_iff)
  have lastn: "up_to_key (last xs) \<noteq> NaN"
    using assms ne by (simp add: ascending_iff)
  have inner: "py_bisect_right (map up_to_key xs) (up_to_key p) = length (takeWhile ?P xs)"
    using py_bisect_right_sorted[OF ascending_keys[OF assms(1)] assms(2)]
    by (simp add: takeWhile_map comp_def)
  show ?thesis
  proof (cases "py_lt (up_to_key p) (up_to_key (last xs))")
    case False
    then have "up_to_key (last xs) \<le> up_to_key p" using assms(2) lastn by (simp add: py_lt_iff)
    then have "\<And>q. q \<in> set xs \<Longrightarrow> ?P q"
      using sorted_le_last[OF srt] by (meson order_trans)
    then have tw: "takeWhile ?P xs = xs" by (rule takeWhile_whole)
    have "dropWhile ?P xs = drop (length (takeWhile ?P xs)) xs" by (rule dropWhile_eq_drop)
    then have dw: "dropWhile ?P xs = []" unfolding tw by simp
    show ?thesis unfolding tw dw using False ne
      by (simp add: add_def maxes_def py_bisect_right_single)
  next
    case True
    have "add xs p = take (length (takeWhile ?P xs)) xs @ [p] @ drop (length (takeWhile ?P xs)) xs"
      using True ne by (simp add: add_def maxes_def py_bisect_right_single inner Let_def)
    then show ?thesis
      by (simp add: takeWhile_eq_take[symmetric] dropWhile_eq_drop[symmetric])
  qed
qed

section \<open>The removal loop and the two insertions\<close>

lemma pop_loop_eq: "i + n \<le> length xs \<Longrightarrow> pop_loop n i xs = Inr (take i xs @ drop (i + n) xs)"
proof (induction n arbitrary: xs)
  case 0
  then show ?case by simp
next
  case (Suc n)
  then have "i < length xs" by simp
  moreover have "i + n \<le> length (take i xs @ drop (Suc i) xs)" using Suc.prems by simp
  ultimately show ?case using Suc.IH[of "take i xs @ drop (Suc i) xs"] Suc.prems
    by (simp add: getidx_def pop_def min_def add.commute)
qed

lemma length_takeWhile_mono:
  "(\<And>x. P x \<Longrightarrow> Q x) \<Longrightarrow> length (takeWhile P xs) \<le> length (takeWhile Q xs)"
  by (induction xs) auto

lemma index_ge_le_gt: "start \<le> stop \<Longrightarrow> index_ge xs start \<le> index_gt xs stop"
  unfolding index_ge_def index_gt_def
  by (rule length_takeWhile_mono) auto

lemma index_ge_mono: "a \<le> b \<Longrightarrow> index_ge xs a \<le> index_ge xs b"
  unfolding index_ge_def by (rule length_takeWhile_mono) auto

lemma index_gt_mono: "a \<le> b \<Longrightarrow> index_gt xs a \<le> index_gt xs b"
  unfolding index_gt_def by (rule length_takeWhile_mono) auto

lemma index_gt_le_length: "index_gt xs k \<le> length xs"
  by (simp add: index_gt_def length_takeWhile_le)

lemma index_ge_le_length: "index_ge xs k \<le> length xs"
  by (simp add: index_ge_def length_takeWhile_le)

lemma nth_index_ge:
  "index_ge xs start < length xs \<Longrightarrow>
   pvalue (xs ! index_ge xs start) = boundary_value xs start"
proof -
  assume a: "index_ge xs start < length xs"
  have "dropWhile (\<lambda>p. up_to_key p < start) xs = drop (index_ge xs start) xs"
    unfolding index_ge_def by (rule dropWhile_eq_drop)
  also have "\<dots> = xs ! index_ge xs start # drop (Suc (index_ge xs start)) xs"
    using a by (simp add: Cons_nth_drop_Suc)
  finally show ?thesis by (simp add: boundary_value_def)
qed

lemma boundary_value_none:
  "\<not> index_ge xs start < length xs \<Longrightarrow> boundary_value xs start = None"
proof -
  assume "\<not> index_ge xs start < length xs"
  then have "length (takeWhile (\<lambda>p. up_to_key p < start) xs) = length xs"
    using index_ge_le_length[of xs start] by (simp add: index_ge_def)
  then have e: "dropWhile (\<lambda>p. up_to_key p < start) xs = []"
    by (subst dropWhile_eq_drop) simp
  show ?thesis unfolding boundary_value_def e by simp
qed

text \<open>
  The removal loop never raises: it pops \<^verbatim>\<open>end_key_idx - start_key_idx\<close> times at
  \<^verbatim>\<open>start_key_idx\<close>, and both indices are at most the length of the list.
\<close>

lemma remove_covered_returns: "\<exists>r. remove_covered xs start stop = Inr r"
proof -
  let ?i = "bisect_left xs start" and ?j = "bisect_right xs stop"
  have "?i + nat (int ?j - int ?i) \<le> length xs"
    using bisect_left_le_length[of xs start] bisect_right_le_length[of xs stop] by linarith
  then have "pop_loop (nat (int ?j - int ?i)) ?i xs =
             Inr (take ?i xs @ drop (?i + nat (int ?j - int ?i)) xs)"
    by (rule pop_loop_eq)
  then show ?thesis by (simp add: remove_covered_def Let_def)
qed

lemma remove_covered_eq:
  assumes "ascending xs" and "py_lt start stop"
  shows "remove_covered xs start stop =
         Inr (boundary_value xs start,
              takeWhile (\<lambda>p. up_to_key p < start) xs @ dropWhile (\<lambda>p. up_to_key p \<le> stop) xs)"
proof -
  let ?i = "index_ge xs start" and ?j = "index_gt xs stop"
  have lt: "start < stop" and sn: "stop \<noteq> NaN" using assms(2) by (simp_all add: py_lt_iff)
  have bl: "bisect_left xs start = ?i" using assms(1) by (rule bisect_left_eq)
  have br: "bisect_right xs stop = ?j" using assms(1) sn by (rule bisect_right_eq)
  have le: "?i \<le> ?j" using lt by (simp add: index_ge_le_gt)
  have n: "nat (int ?j - int ?i) = ?j - ?i" by simp
  have "?i + (?j - ?i) \<le> length xs" using le index_gt_le_length[of xs stop] by simp
  then have "pop_loop (?j - ?i) ?i xs = Inr (take ?i xs @ drop (?i + (?j - ?i)) xs)"
    by (rule pop_loop_eq)
  also have "?i + (?j - ?i) = ?j" using le by simp
  also have "take ?i xs = takeWhile (\<lambda>p. up_to_key p < start) xs"
    unfolding index_ge_def by (rule takeWhile_eq_take[symmetric])
  also have "drop ?j xs = dropWhile (\<lambda>p. up_to_key p \<le> stop) xs"
    unfolding index_gt_def by (rule dropWhile_eq_drop[symmetric])
  finally have pl: "pop_loop (?j - ?i) ?i xs =
      Inr (takeWhile (\<lambda>p. up_to_key p < start) xs @ dropWhile (\<lambda>p. up_to_key p \<le> stop) xs)" .
  have old: "(if ?i < length xs then pvalue (xs ! ?i) else None) = boundary_value xs start"
    by (simp add: nth_index_ge boundary_value_none)
  show ?thesis
    unfolding remove_covered_def Let_def bl br n old pl by simp
qed

lemma add_between:
  assumes "ascending (A @ B)" and "up_to_key p \<noteq> NaN"
    and "\<forall>a\<in>set A. up_to_key a \<le> up_to_key p"
    and "B = [] \<or> up_to_key p < up_to_key (hd B)"
  shows "add (A @ B) p = A @ p # B"
proof -
  let ?P = "\<lambda>q. up_to_key q \<le> up_to_key p"
  have twB: "takeWhile ?P B = []"
    using assms(4) by (cases B) auto
  then have tw: "takeWhile ?P (A @ B) = A"
    using assms(3) by (simp add: takeWhile_append)
  have "dropWhile ?P (A @ B) = drop (length (takeWhile ?P (A @ B))) (A @ B)"
    by (rule dropWhile_eq_drop)
  then have dw: "dropWhile ?P (A @ B) = B" unfolding tw by simp
  show ?thesis
    unfolding add_eq[OF assms(1,2)] tw dw by simp
qed

lemma dropWhile_hd_above:
  "dropWhile (\<lambda>p. up_to_key p \<le> stop) xs = [] \<or>
   stop < up_to_key (hd (dropWhile (\<lambda>p. up_to_key p \<le> stop) xs))"
  by (metis hd_dropWhile not_le)

lemma sorted_dropWhile_above:
  "sorted_wrt (\<lambda>p q. up_to_key p < up_to_key q) xs \<Longrightarrow>
   b \<in> set (dropWhile (\<lambda>p. up_to_key p \<le> stop) xs) \<Longrightarrow> stop < up_to_key b"
proof (induction xs)
  case Nil
  then show ?case by simp
next
  case (Cons x xs)
  show ?case
  proof (cases "up_to_key x \<le> stop")
    case True
    with Cons show ?thesis by simp
  next
    case False
    with Cons.prems show ?thesis by (auto simp: not_le intro: less_trans)
  qed
qed

lemma last_dropWhile:
  "xs \<noteq> [] \<Longrightarrow> \<not> P (last xs) \<Longrightarrow>
   dropWhile P xs \<noteq> [] \<and> last (dropWhile P xs) = last xs"
  by (induction xs) (auto split: if_splits)

lemma sorted_wrt_prefix:
  "sorted_wrt R xs \<Longrightarrow> sorted_wrt R (takeWhile P xs)"
  by (metis sorted_wrt_append takeWhile_dropWhile_id)

lemma sorted_wrt_suffix:
  "sorted_wrt R xs \<Longrightarrow> sorted_wrt R (dropWhile P xs)"
  by (metis sorted_wrt_append takeWhile_dropWhile_id)

text \<open>
  The list between the removal and the insertions, and the list between the two
  insertions, have ascending keys.
\<close>

lemma ascending_pieces:
  assumes asc: "ascending xs" and lt: "start < stop" and sn: "start \<noteq> NaN"
    and s: "up_to_key s = start"
  shows "ascending (takeWhile (\<lambda>p. up_to_key p < start) xs @
                    dropWhile (\<lambda>p. up_to_key p \<le> stop) xs)"
    and "ascending ((takeWhile (\<lambda>p. up_to_key p < start) xs @ [s]) @
                    dropWhile (\<lambda>p. up_to_key p \<le> stop) xs)"
proof -
  let ?A = "takeWhile (\<lambda>p. up_to_key p < start) xs"
  let ?B = "dropWhile (\<lambda>p. up_to_key p \<le> stop) xs"
  let ?R = "\<lambda>p q. up_to_key p < up_to_key (q :: 'a pair)"
  from asc have srt: "sorted_wrt ?R xs" and nn: "\<forall>p\<in>set xs. up_to_key p \<noteq> NaN"
    by (simp_all add: ascending_iff)
  have A: "\<forall>a\<in>set ?A. up_to_key a < start"
    by (auto dest: set_takeWhileD)
  have B: "\<forall>b\<in>set ?B. stop < up_to_key b"
    using srt by (auto intro: sorted_dropWhile_above)
  have sA: "sorted_wrt ?R ?A" using srt by (rule sorted_wrt_prefix)
  have sB: "sorted_wrt ?R ?B" using srt by (rule sorted_wrt_suffix)
  have nA: "\<forall>a\<in>set ?A. up_to_key a \<noteq> NaN" using nn by (auto dest: set_takeWhileD)
  have nB: "\<forall>b\<in>set ?B. up_to_key b \<noteq> NaN" using nn by (auto dest: set_dropWhileD)
  have AB: "\<forall>a\<in>set ?A. \<forall>b\<in>set ?B. up_to_key a < up_to_key b"
  proof (intro ballI)
    fix a b assume "a \<in> set ?A" "b \<in> set ?B"
    then have "up_to_key a < start" "stop < up_to_key b" using A B by auto
    then show "up_to_key a < up_to_key b" using lt by order
  qed
  have Bs: "\<forall>b\<in>set ?B. start < up_to_key b"
    using B lt by (auto intro: less_trans)
  show "ascending (?A @ ?B)"
    using sA sB AB nA nB by (simp add: ascending_iff sorted_wrt_append ball_Un)
  show "ascending ((?A @ [s]) @ ?B)"
    using sA sB AB A Bs nA nB sn s by (simp add: ascending_iff sorted_wrt_append ball_Un)
qed

lemma setitem_eq:
  assumes step: "slice_step slice_key = Some 1 \<or> slice_step slice_key = None"
    and asc: "ascending (data self)"
    and plt: "py_lt (lower_bound slice_key) (upper_bound slice_key)"
  shows "setitem self slice_key v =
         Inr (self \<lparr> data := assigned (data self) (lower_bound slice_key) (upper_bound slice_key) v \<rparr>)"
proof -
  let ?start = "lower_bound slice_key" and ?stop = "upper_bound slice_key"
  let ?A = "takeWhile (\<lambda>p. up_to_key p < ?start) (data self)"
  let ?B = "dropWhile (\<lambda>p. up_to_key p \<le> ?stop) (data self)"
  let ?s = "\<lparr> up_to_key = ?start, pvalue = boundary_value (data self) ?start \<rparr>"
  let ?t = "\<lparr> up_to_key = ?stop, pvalue = v \<rparr>"
  have lt: "?start < ?stop" and n1: "?start \<noteq> NaN" and n2: "?stop \<noteq> NaN"
    using plt by (simp_all add: py_lt_iff)
  have A: "\<forall>a\<in>set ?A. up_to_key a < ?start"
    by (auto dest: set_takeWhileD)
  have B: "?B = [] \<or> ?stop < up_to_key (hd ?B)"
    by (rule dropWhile_hd_above)
  have asc1: "ascending (?A @ ?B)" and asc2: "ascending ((?A @ [?s]) @ ?B)"
    using ascending_pieces[OF asc lt n1, of ?s] by simp_all
  have a1: "add (?A @ ?B) ?s = ?A @ ?s # ?B"
    using A B lt n1 by (intro add_between[OF asc1]) (auto simp: less_imp_le)
  have a2: "add ((?A @ [?s]) @ ?B) ?t = (?A @ [?s]) @ ?t # ?B"
    using A B lt n2 by (intro add_between[OF asc2]) (auto simp: less_imp_le)
  have a3: "add (?A @ ?B) ?t = ?A @ ?t # ?B"
    using A B lt n2 by (intro add_between[OF asc1]) (auto simp: less_imp_le)
  have nge: "\<not> py_ge ?start ?stop" using lt by (auto simp: py_ge_def py_le_iff)
  have gt: "py_gt ?start NInf \<longleftrightarrow> NInf < ?start" by (simp add: py_gt_def NInf_less_iff)
  have rc: "remove_covered (data self) ?start ?stop = Inr (boundary_value (data self) ?start, ?A @ ?B)"
    using asc plt by (rule remove_covered_eq)
  have "setitem self slice_key v =
        (let xs1 = (if py_gt ?start NInf then add (?A @ ?B) ?s else ?A @ ?B);
             xs2 = add xs1 ?t
         in Inr (self \<lparr> data := xs2 \<rparr>))"
    using step nge
    by (simp add: setitem_def Let_def lower_bound_def[symmetric] upper_bound_def[symmetric] rc)
  also have "\<dots> = Inr (self \<lparr> data := assigned (data self) ?start ?stop v \<rparr>)"
    using a1 a2 a3 by (simp add: Let_def gt assigned_def)
  finally show ?thesis .
qed

text \<open>
  The ways a call of \<^verbatim>\<open>__setitem__\<close> ends. It raises only by the assertion on the step.
  On a list with ascending keys and for bounds that are numbers, the range is empty and
  nothing changes, or the list becomes \<open>assigned\<close>.
\<close>

lemma setitem_empty:
  assumes "slice_step slice_key = Some 1 \<or> slice_step slice_key = None"
    and "py_ge (lower_bound slice_key) (upper_bound slice_key)"
  shows "setitem self slice_key v = Inr self"
  using assms by (simp add: setitem_def Let_def lower_bound_def upper_bound_def)

lemma setitem_bad_step:
  assumes "\<not> (slice_step slice_key = Some 1 \<or> slice_step slice_key = None)"
  shows "setitem self slice_key v = Inl AssertionError"
  using assms by (simp add: setitem_def)

lemma setitem_total:
  assumes "setitem self slice_key v = Inl e"
  shows "e = AssertionError \<and> \<not> (slice_step slice_key = Some 1 \<or> slice_step slice_key = None)"
proof (cases "slice_step slice_key = Some 1 \<or> slice_step slice_key = None")
  case False
  then show ?thesis using assms by (simp add: setitem_def)
next
  case True
  obtain r where "remove_covered (data self) (lower_bound slice_key) (upper_bound slice_key) = Inr r"
    using remove_covered_returns by blast
  then have "\<exists>s. setitem self slice_key v = Inr s"
    using True
    by (cases r) (simp add: setitem_def Let_def lower_bound_def[symmetric] upper_bound_def[symmetric])
  then show ?thesis using assms by auto
qed

lemma setitem_cases:
  assumes "ascending (data self)"
    and "lower_bound slice_key \<noteq> NaN" and "upper_bound slice_key \<noteq> NaN"
  obtains (bad) "\<not> (slice_step slice_key = Some 1 \<or> slice_step slice_key = None)"
      "setitem self slice_key v = Inl AssertionError"
  | (noop) "py_ge (lower_bound slice_key) (upper_bound slice_key)"
      "setitem self slice_key v = Inr self"
  | (stored) "py_lt (lower_bound slice_key) (upper_bound slice_key)"
      "setitem self slice_key v =
       Inr (self \<lparr> data := assigned (data self) (lower_bound slice_key) (upper_bound slice_key) v \<rparr>)"
proof -
  show thesis
  proof (cases "slice_step slice_key = Some 1 \<or> slice_step slice_key = None")
    case False
    show ?thesis by (rule bad[OF False setitem_bad_step[OF False]])
  next
    case step: True
    show ?thesis
    proof (cases "py_lt (lower_bound slice_key) (upper_bound slice_key)")
      case True
      show ?thesis by (rule stored[OF True setitem_eq[OF step assms(1) True]])
    next
      case False
      then have ge: "py_ge (lower_bound slice_key) (upper_bound slice_key)"
        using assms(2,3) by (simp add: py_ge_def py_le_iff py_lt_iff not_less)
      show ?thesis by (rule noop[OF ge setitem_empty[OF step ge]])
    qed
  qed
qed

section \<open>The invariant holds where the bounds are numbers\<close>

lemma invar_ascending: "invar self \<Longrightarrow> ascending (data self)"
  by (auto simp: invar_def ascending_def list_all_iff py_lt_iff)

lemma invar_iff:
  "invar self \<longleftrightarrow>
   sorted_wrt (\<lambda>p q. up_to_key p < up_to_key q) (data self) \<and> data self \<noteq> [] \<and>
   up_to_key (last (data self)) = PInf \<and> (\<forall>p\<in>set (data self). NInf < up_to_key p)"
proof -
  have "invar self \<longleftrightarrow> ascending (data self) \<and> data self \<noteq> [] \<and>
        up_to_key (last (data self)) = PInf \<and> (\<forall>p\<in>set (data self). NInf < up_to_key p)"
    by (auto simp: invar_def ascending_def list_all_iff py_lt_iff)
  then show ?thesis
    by (auto simp: ascending_iff dest: less_not_NaN)
qed

lemma invar_assigned:
  assumes inv: "invar self" and lt: "start < stop" and sn: "start \<noteq> NaN"
  shows "invar (self \<lparr> data := assigned (data self) start stop v \<rparr>)"
proof -
  let ?xs = "data self"
  let ?A = "takeWhile (\<lambda>p. up_to_key p < start) ?xs"
  let ?B = "dropWhile (\<lambda>p. up_to_key p \<le> stop) ?xs"
  let ?R = "\<lambda>p q. up_to_key p < up_to_key (q :: 'a pair)"
  from inv have srt: "sorted_wrt ?R ?xs" and ne: "?xs \<noteq> []"
    and lst: "up_to_key (last ?xs) = PInf" and pos: "\<forall>p\<in>set ?xs. NInf < up_to_key p"
    by (auto simp: invar_iff)
  have A: "\<forall>a\<in>set ?A. up_to_key a < start"
    by (auto dest: set_takeWhileD)
  have B: "\<forall>b\<in>set ?B. stop < up_to_key b"
    using srt by (auto intro: sorted_dropWhile_above)
  have sA: "sorted_wrt ?R ?A" using srt by (rule sorted_wrt_prefix)
  have sB: "sorted_wrt ?R ?B" using srt by (rule sorted_wrt_suffix)
  have subA: "set ?A \<subseteq> set ?xs" by (auto dest: set_takeWhileD)
  have subB: "set ?B \<subseteq> set ?xs" by (auto dest: set_dropWhileD)
  have AB: "\<forall>a\<in>set ?A. \<forall>b\<in>set ?B. up_to_key a < up_to_key b"
  proof (intro ballI)
    fix a b assume "a \<in> set ?A" "b \<in> set ?B"
    then have "up_to_key a < start" "stop < up_to_key b" using A B by auto
    then show "up_to_key a < up_to_key b" using lt by order
  qed
  have As: "\<forall>a\<in>set ?A. up_to_key a < stop"
    using A lt by (auto intro: less_trans)
  have Bs: "\<forall>b\<in>set ?B. start < up_to_key b"
    using B lt by (auto intro: less_trans)
  have "sorted_wrt ?R (assigned ?xs start stop v)"
    using A B AB As Bs sA sB lt by (simp add: assigned_def sorted_wrt_append)
  moreover have "assigned ?xs start stop v \<noteq> []"
    by (simp add: assigned_def)
  moreover have "up_to_key (last (assigned ?xs start stop v)) = PInf"
  proof (cases "stop = PInf")
    case True
    then have "?B = []" by (simp add: key_le_PInf)
    then show ?thesis using True by (simp add: assigned_def)
  next
    case False
    then have "\<not> up_to_key (last ?xs) \<le> stop"
      using lst by (cases stop) auto
    then have "?B \<noteq> [] \<and> last ?B = last ?xs"
      using ne by (intro last_dropWhile) auto
    then have "last (assigned ?xs start stop v) = last ?xs"
      unfolding assigned_def by (simp del: dropWhile_eq_Nil_conv)
    then show ?thesis using lst by simp
  qed
  moreover have "\<forall>p\<in>set (assigned ?xs start stop v). NInf < up_to_key p"
  proof -
    have "NInf < stop" using lt sn by (cases start; cases stop) auto
    then show ?thesis using pos subA subB by (auto simp: assigned_def)
  qed
  ultimately show ?thesis by (simp add: invar_iff)
qed




lemma numeric_reachable_reachable: "numeric_reachable self \<Longrightarrow> reachable self"
  by (induction rule: numeric_reachable.induct) (auto intro: reachable.intros)

section \<open>Point queries\<close>



lemma search_op_index:
  "search_op self xs k = (if include_policy self = ''start'' then bisect_right xs k
                          else bisect_left xs k)"
  by (simp add: search_op_def)

lemma search_op_passed:
  assumes "ascending xs" and "include_policy self \<noteq> ''start'' \<or> k \<noteq> NaN"
  shows "search_op self xs k = length (takeWhile (passed self k) xs)"
  using assms
  by (auto simp: search_op_def passed_def bisect_left_eq bisect_right_eq index_ge_def index_gt_def)



lemma passed_le: "passed self k p \<Longrightarrow> up_to_key p \<le> k"
  by (simp add: passed_def split: if_splits)

lemma passed_update [simp]: "passed (self \<lparr> data := xs \<rparr>) = passed self"
  by (simp add: passed_def fun_eq_iff)

lemma length_takeWhile_less:
  "dropWhile P xs \<noteq> [] \<Longrightarrow> length (takeWhile P xs) < length xs"
  by (induction xs) (auto split: if_splits)

lemma invar_passed_found:
  assumes "invar self" and "k < PInf"
  shows "dropWhile (passed self k) (data self) \<noteq> []"
proof -
  from assms(1) have ne: "data self \<noteq> []" and lst: "up_to_key (last (data self)) = PInf"
    by (auto simp: invar_def)
  have "\<not> passed self k (last (data self))"
    using passed_le[of self k "last (data self)"] lst assms(2) by auto
  then show ?thesis using ne last_dropWhile by blast
qed


section \<open>The examples of the specification\<close>

lemma and_then_Inr: "and_then (Inr x) f = f x"
  by (simp add: and_then_def)

lemma and_then_Inl: "and_then (Inl e) f = Inl e"
  by (simp add: and_then_def)

lemma and_then_weak_cong: "r = r' \<Longrightarrow> and_then r f = and_then r' f"
  by simp

lemma pop_loop_step:
  "0 < n \<Longrightarrow> pop_loop n i xs =
     (case getidx xs (int i) of
        Inl e \<Rightarrow> Inl e
      | Inr logged \<Rightarrow>
          (case pop xs i of
             Inl e \<Rightarrow> Inl e
           | Inr xs' \<Rightarrow> pop_loop (n - 1) i xs'))"
  by (cases n) (auto split: sum.splits)

lemmas run_defs = pop_loop_step and_then_Inr and_then_Inl bounds_def SliceMap_init_def setitem_def
  remove_covered_def bisect_left_def bisect_right_def add_def maxes_def py_bisect_left_def
  py_bisect_right_def bsearch_step bsearch_stop py_ge_def py_gt_def getidx_def pop_def
  export_def len_def getitem_def search_op_def search_key_def Let_def

text \<open>
  Claim C3. On a fresh map, of either policy, \<^verbatim>\<open>m[0:10] = "a"\<close>, \<^verbatim>\<open>m[10:20] = "b"\<close>
  and \<^verbatim>\<open>m[5:15] = "c"\<close> all return, and then \<^verbatim>\<open>export()\<close> is
  \<^verbatim>\<open>[(-inf, 0, None), (0, 5, "a"), (5, 15, "c"), (15, 20, "b"), (20, inf, None)]\<close>
  and \<^verbatim>\<open>len(m)\<close> is 4.
\<close>

theorem split_example:
  "and_then (and_then (and_then (and_then (SliceMap_init ''start'')
      (\<lambda>m. setitem m (bounds (Fin 0) (Fin 10)) (Some ''a'')))
      (\<lambda>m. setitem m (bounds (Fin 10) (Fin 20)) (Some ''b'')))
      (\<lambda>m. setitem m (bounds (Fin 5) (Fin 15)) (Some ''c'')))
      (\<lambda>m. Inr (export m, len m))
   = Inr (Inr [(NInf, Fin 0, None), (Fin 0, Fin 5, Some ''a''), (Fin 5, Fin 15, Some ''c''),
               (Fin 15, Fin 20, Some ''b''), (Fin 20, PInf, None)], 4)
   \<and>
   and_then (and_then (and_then (and_then (SliceMap_init ''end'')
      (\<lambda>m. setitem m (bounds (Fin 0) (Fin 10)) (Some ''a'')))
      (\<lambda>m. setitem m (bounds (Fin 10) (Fin 20)) (Some ''b'')))
      (\<lambda>m. setitem m (bounds (Fin 5) (Fin 15)) (Some ''c'')))
      (\<lambda>m. Inr (export m, len m))
   = Inr (Inr [(NInf, Fin 0, None), (Fin 0, Fin 5, Some ''a''), (Fin 5, Fin 15, Some ''c''),
               (Fin 15, Fin 20, Some ''b''), (Fin 20, PInf, None)], 4)"
  by (simp add: run_defs cong: and_then_weak_cong)

text \<open>
  Claim C4. On a fresh map, after \<^verbatim>\<open>m[0:10] = "a"\<close> and \<^verbatim>\<open>m[10:20] = "b"\<close>, the point
  query \<^verbatim>\<open>m[10]\<close> returns \<^verbatim>\<open>"b"\<close> when the map was made with \<^verbatim>\<open>include="start"\<close> and
  \<^verbatim>\<open>"a"\<close> when it was made with \<^verbatim>\<open>include="end"\<close>.
\<close>

theorem overwrite_example:
  "and_then (and_then (and_then (SliceMap_init ''start'')
      (\<lambda>m. setitem m (bounds (Fin 0) (Fin 10)) (Some ''a'')))
      (\<lambda>m. setitem m (bounds (Fin 10) (Fin 20)) (Some ''b'')))
      (\<lambda>m. getitem m (Scalar (Fin 10)))
   = Inr (Single (Some ''b''))
   \<and>
   and_then (and_then (and_then (SliceMap_init ''end'')
      (\<lambda>m. setitem m (bounds (Fin 0) (Fin 10)) (Some ''a'')))
      (\<lambda>m. setitem m (bounds (Fin 10) (Fin 20)) (Some ''b'')))
      (\<lambda>m. getitem m (Scalar (Fin 10)))
   = Inr (Single (Some ''a''))"
  by (simp add: run_defs cong: and_then_weak_cong)

section \<open>The empty range\<close>

text \<open>
  Claim C8. A call of \<^verbatim>\<open>__setitem__\<close> whose lower bound is \<^verbatim>\<open>>=\<close> its upper bound
  (each bound as the code reads it: an absent start is \<^verbatim>\<open>-inf\<close>, an absent stop is
  \<^verbatim>\<open>inf\<close>; the step absent or 1, as for every assignment) returns without an error and
  leaves the object as it was, so \<^verbatim>\<open>export()\<close> gives afterwards what it gave before.
  This holds in every state, whatever the list holds.
\<close>

theorem empty_range_noop:
  assumes "slice_step slice_key = Some 1 \<or> slice_step slice_key = None"
    and "py_ge (case slice_start slice_key of Some a \<Rightarrow> a | None \<Rightarrow> NInf)
               (case slice_stop slice_key of Some b \<Rightarrow> b | None \<Rightarrow> PInf)"
  shows "\<exists>self'. setitem self slice_key v = Inr self' \<and> self' = self \<and>
                  export self' = export self"
  using assms by (simp add: setitem_def Let_def)

theorem empty_range_noop_witness:
  "\<exists>self'. setitem \<lparr> data = [\<lparr> up_to_key = Fin 0, pvalue = None \<rparr>,
                              \<lparr> up_to_key = Fin 10, pvalue = Some ''a'' \<rparr>,
                              \<lparr> up_to_key = PInf, pvalue = None \<rparr>],
                      include_policy = ''start'' \<rparr>
              (bounds (Fin 10) (Fin 10)) (Some ''x'') = Inr self' \<and>
           export self' = Inr [(NInf, Fin 0, None), (Fin 0, Fin 10, Some ''a''),
                               (Fin 10, PInf, None)]"
  using empty_range_noop [of "bounds (Fin 10) (Fin 10)"
      "\<lparr> data = [\<lparr> up_to_key = Fin 0, pvalue = None \<rparr>,
                 \<lparr> up_to_key = Fin 10, pvalue = Some ''a'' \<rparr>,
                 \<lparr> up_to_key = PInf, pvalue = None \<rparr>],
         include_policy = ''start'' \<rparr>" "Some ''x''"]
  by (simp add: bounds_def export_def getidx_def py_ge_def)

section \<open>A reachable state with three stored boundaries\<close>

lemma numeric_reachable_example:
  assumes "incl = ''start'' \<or> incl = ''end''"
  shows "numeric_reachable (example_map incl)"
proof -
  let ?s0 = "\<lparr> data = [\<lparr> up_to_key = PInf, pvalue = None \<rparr>], include_policy = incl \<rparr>
             :: string slicemap"
  let ?s1 = "\<lparr> data = [\<lparr> up_to_key = Fin 0, pvalue = None \<rparr>,
                        \<lparr> up_to_key = Fin 10, pvalue = Some ''a'' \<rparr>,
                        \<lparr> up_to_key = PInf, pvalue = None \<rparr>], include_policy = incl \<rparr>
             :: string slicemap"
  have 0: "SliceMap_init incl = Inr ?s0"
    using assms by (auto simp: run_defs)
  have 1: "setitem ?s0 (bounds (Fin 0) (Fin 10)) (Some ''a'') = Inr ?s1"
    by (simp add: run_defs)
  have 2: "setitem ?s1 (bounds (Fin 10) (Fin 20)) (Some ''b'') = Inr (example_map incl)"
    by (simp add: run_defs example_map_def)
  have n1: "lower_bound (bounds (Fin 0) (Fin 10)) \<noteq> NaN" "upper_bound (bounds (Fin 0) (Fin 10)) \<noteq> NaN"
    by (simp_all add: bounds_def lower_bound_def upper_bound_def)
  have n2: "lower_bound (bounds (Fin 10) (Fin 20)) \<noteq> NaN" "upper_bound (bounds (Fin 10) (Fin 20)) \<noteq> NaN"
    by (simp_all add: bounds_def lower_bound_def upper_bound_def)
  show ?thesis
    by (rule numeric_reachable.assign[OF
          numeric_reachable.assign[OF numeric_reachable.fresh[OF 0] n1 1] n2 2])
qed

lemma reachable_example:
  assumes "incl = ''start'' \<or> incl = ''end''"
  shows "reachable (example_map incl)"
  using assms by (intro numeric_reachable_reachable numeric_reachable_example)

section \<open>Totality of the point query\<close>

text \<open>
  Claim C6 says that in every reachable state the point query of every finite key
  returns. The code does not achieve it. The test \<^verbatim>\<open>start >= stop\<close> of line 76 is false
  when a bound is NaN, so \<^verbatim>\<open>m[5:float("nan")] = "y"\<close> is carried out: \<^verbatim>\<open>bisect_right\<close>
  of NaN is the length of the list, the removal loop pops every entry from the start
  index on, the entry of \<^verbatim>\<open>float("inf")\<close> among them, and \<^verbatim>\<open>add\<close> appends the entries of 5
  and of NaN. On a map made with \<^verbatim>\<open>include="start"\<close>, after \<^verbatim>\<open>m[0:10] = "a"\<close>,
  \<^verbatim>\<open>m[10:20] = "b"\<close> and \<^verbatim>\<open>m[5:float("nan")] = "y"\<close> the list holds the keys 0, 5 and NaN;
  the search for 1000 returns 3, the number of entries, and \<^verbatim>\<open>m[1000]\<close> raises
  \<^verbatim>\<open>IndexError\<close>. On a map made with \<^verbatim>\<open>include="end"\<close> one more assignment,
  \<^verbatim>\<open>m[7:8] = "z"\<close>, removes the entry of NaN as well, and \<^verbatim>\<open>m[1000]\<close> raises there too.
\<close>

theorem point_query_raises_after_nan:
  "and_then (and_then (and_then (and_then (SliceMap_init ''start'')
      (\<lambda>m. setitem m (bounds (Fin 0) (Fin 10)) (Some ''a'')))
      (\<lambda>m. setitem m (bounds (Fin 10) (Fin 20)) (Some ''b'')))
      (\<lambda>m. setitem m (bounds (Fin 5) NaN) (Some ''y'')))
      (\<lambda>m. Inr (data m, search_op m (data m) (Fin 1000), getitem m (Scalar (Fin 1000))))
   = Inr ([\<lparr> up_to_key = Fin 0, pvalue = None \<rparr>,
           \<lparr> up_to_key = Fin 5, pvalue = Some ''a'' \<rparr>,
           \<lparr> up_to_key = NaN, pvalue = Some ''y'' \<rparr>], 3, Inl IndexError)
   \<and>
   and_then (and_then (and_then (SliceMap_init ''end'')
      (\<lambda>m. setitem m (bounds (Fin 5) NaN) (Some ''y'')))
      (\<lambda>m. setitem m (bounds (Fin 7) (Fin 8)) (Some ''z'')))
      (\<lambda>m. Inr (data m, search_op m (data m) (Fin 1000), getitem m (Scalar (Fin 1000))))
   = Inr ([\<lparr> up_to_key = Fin 5, pvalue = None \<rparr>,
           \<lparr> up_to_key = Fin 7, pvalue = Some ''y'' \<rparr>,
           \<lparr> up_to_key = Fin 8, pvalue = Some ''z'' \<rparr>], 3, Inl IndexError)"
  by (simp add: run_defs cong: and_then_weak_cong)

section \<open>Point queries after an assignment\<close>


lemma takeWhile_all: "\<forall>a\<in>set (takeWhile Q xs). Q a"
  by (auto dest: set_takeWhileD)






section \<open>Idempotence of the assignment\<close>

lemma assigned_idem:
  assumes lt: "start < stop"
  shows "assigned (assigned xs start stop v) start stop v = assigned xs start stop v"
proof -
  let ?A = "takeWhile (\<lambda>p. up_to_key p < start) xs"
  let ?B = "dropWhile (\<lambda>p. up_to_key p \<le> stop) xs"
  let ?N = "assigned xs start stop v"
  have A: "\<forall>a\<in>set ?A. up_to_key a < start" by (rule takeWhile_all)
  have A2: "\<forall>a\<in>set ?A. up_to_key a \<le> stop"
    using A lt by (auto intro: less_imp_le less_trans)
  have nlt: "\<not> stop < start" using lt by simp
  have t1: "takeWhile (\<lambda>p. up_to_key p < start) ?N = ?A"
    using A nlt by (simp add: assigned_def takeWhile_append)
  have t2: "dropWhile (\<lambda>p. up_to_key p \<le> stop) ?N = ?B"
    using A2 lt by (simp add: assigned_def dropWhile_append less_imp_le)
  have t3: "boundary_value ?N start = boundary_value xs start" if "NInf < start"
    using A that by (simp add: boundary_value_def assigned_def dropWhile_append)
  show ?thesis
    using t3 unfolding assigned_def[of ?N] t1 t2 by (simp add: assigned_def)
qed

text \<open>
  Claim C5. In a state that satisfies the container invariants, when \<^verbatim>\<open>m[r] = v\<close> has
  returned, for bounds that are numbers, the same call once more returns as well and
  changes nothing: the object is the same, and so \<^verbatim>\<open>export()\<close> gives the same list after
  two calls as after one. (A call that raises, on a step other than 1, raises both times
  and changes nothing.)
\<close>

theorem assign_idempotent:
  assumes "invar self"
    and "lower_bound slice_key \<noteq> NaN" and "upper_bound slice_key \<noteq> NaN"
    and "setitem self slice_key v = Inr self1"
  shows "\<exists>self2. setitem self1 slice_key v = Inr self2 \<and> self2 = self1 \<and>
                  export self2 = export self1"
proof (rule setitem_cases[OF invar_ascending[OF assms(1)] assms(2,3), where v = v])
  assume "setitem self slice_key v = Inl AssertionError"
  with assms(4) show ?thesis by simp
next
  assume "py_ge (lower_bound slice_key) (upper_bound slice_key)"
    and "setitem self slice_key v = Inr self"
  with assms(4) show ?thesis by simp
next
  let ?start = "lower_bound slice_key" and ?stop = "upper_bound slice_key"
  assume plt: "py_lt ?start ?stop"
    and s: "setitem self slice_key v = Inr (self \<lparr> data := assigned (data self) ?start ?stop v \<rparr>)"
  have lt: "?start < ?stop" using plt by (simp add: py_lt_iff)
  from s assms(4) have s1: "self1 = self \<lparr> data := assigned (data self) ?start ?stop v \<rparr>" by simp
  have step: "slice_step slice_key = Some 1 \<or> slice_step slice_key = None"
    using s by (auto simp: setitem_def split: if_splits)
  have "invar self1" unfolding s1 using assms(1) lt assms(2) by (rule invar_assigned)
  then have asc1: "ascending (data self1)" by (rule invar_ascending)
  have "setitem self1 slice_key v = Inr (self1 \<lparr> data := assigned (data self1) ?start ?stop v \<rparr>)"
    using step asc1 plt by (rule setitem_eq)
  also have "self1 \<lparr> data := assigned (data self1) ?start ?stop v \<rparr> = self1"
    by (simp add: s1 assigned_idem[OF lt])
  finally show ?thesis by simp
qed

theorem assign_idempotent_witness:
  "setitem \<lparr> data = [\<lparr> up_to_key = Fin 0, pvalue = None \<rparr>,
                     \<lparr> up_to_key = Fin 5, pvalue = Some ''a'' \<rparr>,
                     \<lparr> up_to_key = Fin 15, pvalue = Some ''c'' \<rparr>,
                     \<lparr> up_to_key = Fin 20, pvalue = Some ''b'' \<rparr>,
                     \<lparr> up_to_key = PInf, pvalue = None \<rparr>],
             include_policy = ''start'' \<rparr>
     (bounds (Fin 5) (Fin 15)) (Some ''c'')
   = Inr \<lparr> data = [\<lparr> up_to_key = Fin 0, pvalue = None \<rparr>,
                     \<lparr> up_to_key = Fin 5, pvalue = Some ''a'' \<rparr>,
                     \<lparr> up_to_key = Fin 15, pvalue = Some ''c'' \<rparr>,
                     \<lparr> up_to_key = Fin 20, pvalue = Some ''b'' \<rparr>,
                     \<lparr> up_to_key = PInf, pvalue = None \<rparr>],
             include_policy = ''start'' \<rparr>"
proof -
  have inv: "invar (example_map ''start'')"
    by (simp add: invar_def example_map_def)
  have n: "lower_bound (bounds (Fin 5) (Fin 15)) \<noteq> NaN" "upper_bound (bounds (Fin 5) (Fin 15)) \<noteq> NaN"
    by (simp_all add: bounds_def lower_bound_def upper_bound_def)
  have once: "setitem (example_map ''start'') (bounds (Fin 5) (Fin 15)) (Some ''c'')
    = Inr \<lparr> data = [\<lparr> up_to_key = Fin 0, pvalue = None \<rparr>,
                     \<lparr> up_to_key = Fin 5, pvalue = Some ''a'' \<rparr>,
                     \<lparr> up_to_key = Fin 15, pvalue = Some ''c'' \<rparr>,
                     \<lparr> up_to_key = Fin 20, pvalue = Some ''b'' \<rparr>,
                     \<lparr> up_to_key = PInf, pvalue = None \<rparr>],
             include_policy = ''start'' \<rparr>"
    by (simp add: run_defs example_map_def)
  from assign_idempotent[OF inv n once] show ?thesis by simp
qed

section \<open>The partition of the key line\<close>

text \<open>
  Claim C2 says that after any sequence of assignments on a fresh map the keys ascend
  strictly and \<^verbatim>\<open>export()\<close> chains from \<^verbatim>\<open>-inf\<close> to \<^verbatim>\<open>inf\<close> without a gap. The code does
  not achieve it, for the reason given at claim C6: an assignment with a NaN bound is
  carried out. On a fresh map \<^verbatim>\<open>m[5:float("nan")] = "y"\<close> leaves the keys 5 and NaN, which do
  not ascend (\<^verbatim>\<open>5 < nan\<close> is false), and \<^verbatim>\<open>export()\<close> ends at NaN; after \<^verbatim>\<open>m[3:4] = "z"\<close>
  the keys are 3 and 4, and \<^verbatim>\<open>export()\<close> ends at 4: the keys above 4 belong to no triple.
  (For bounds that are numbers the invariant holds: \<open>numeric_reachable_invar\<close>.)
\<close>

theorem partition_broken_by_nan:
  "and_then (and_then (SliceMap_init ''start'')
      (\<lambda>m. setitem m (bounds (Fin 5) NaN) (Some ''y'')))
      (\<lambda>m. Inr (map up_to_key (data m),
                sorted_wrt py_lt (map up_to_key (data m)), export m))
   = Inr ([Fin 5, NaN], False, Inr [(NInf, Fin 5, None), (Fin 5, NaN, Some ''y'')])
   \<and>
   and_then (and_then (and_then (SliceMap_init ''start'')
      (\<lambda>m. setitem m (bounds (Fin 5) NaN) (Some ''y'')))
      (\<lambda>m. setitem m (bounds (Fin 3) (Fin 4)) (Some ''z'')))
      (\<lambda>m. Inr (map up_to_key (data m), export m))
   = Inr ([Fin 3, Fin 4], Inr [(NInf, Fin 3, None), (Fin 3, Fin 4, Some ''z'')])"
  by (simp add: run_defs cong: and_then_weak_cong)

section \<open>The entry of infinity\<close>





section \<open>Range queries\<close>

lemma getidx_nat: "getidx xs (int i) = (if i < length xs then Inr (xs ! i) else Inl IndexError)"
  by (simp add: getidx_def)

lemma values_at_ok:
  "\<forall>i\<in>set js. i < length xs \<Longrightarrow> values_at xs js = Inr (map (\<lambda>i. pvalue (xs ! i)) js)"
  by (induction js) (simp_all add: getidx_nat)

lemma values_at_err:
  "\<exists>i\<in>set js. length xs \<le> i \<Longrightarrow> values_at xs js = Inl IndexError"
proof (induction js)
  case Nil
  then show ?case by simp
next
  case (Cons j js)
  show ?case
  proof (cases "j < length xs")
    case False
    then show ?thesis by (simp add: getidx_nat)
  next
    case True
    with Cons.prems have "\<exists>i\<in>set js. length xs \<le> i" by auto
    then have "values_at xs js = Inl IndexError" by (rule Cons.IH)
    then show ?thesis using True by (simp add: getidx_nat)
  qed
qed

lemma getitem_slice:
  "getitem self (Slice (Some a) (Some b)) =
   (case values_at (data self)
           [search_op self (data self) a ..< search_op self (data self) b + 1] of
      Inl e \<Rightarrow> Inl e | Inr vs \<Rightarrow> Inr (Tuple vs))"
  by (simp add: getitem_def search_key_def)

lemma search_op_le_length: "search_op self xs k \<le> length xs"
  by (simp add: search_op_def bisect_left_le_length bisect_right_le_length)

lemma example_search:
  "search_op (example_map ''start'') (data (example_map ''start'')) (Fin (- 5)) = 0"
  "search_op (example_map ''start'') (data (example_map ''start'')) (Fin 5) = 1"
  "search_op (example_map ''start'') (data (example_map ''start'')) (Fin 12) = 2"
  "search_op (example_map ''start'') (data (example_map ''start'')) (Fin 15) = 2"
  "search_op (example_map ''start'') (data (example_map ''start'')) (Fin 25) = 3"
  "search_op (example_map ''start'') (data (example_map ''start'')) PInf = 4"
  "search_op (example_map ''end'') (data (example_map ''end'')) (Fin 5) = 1"
  "search_op (example_map ''end'') (data (example_map ''end'')) PInf = 3"
  by (simp_all add: run_defs example_map_def)

lemma search_op_mono:
  assumes "ascending xs" and "py_le a b"
  shows "search_op self xs a \<le> search_op self xs b"
proof -
  have ab: "a \<le> b" "a \<noteq> NaN" "b \<noteq> NaN" using assms(2) by (simp_all add: py_le_iff)
  have "length (takeWhile (passed self a) xs) \<le> length (takeWhile (passed self b) xs)"
    using ab(1) by (intro length_takeWhile_mono) (auto simp: passed_def split: if_splits)
  then show ?thesis using assms(1) ab by (simp add: search_op_passed)
qed

lemma passed_down: "up_to_key p < up_to_key q \<Longrightarrow> passed self k q \<Longrightarrow> passed self k p"
  by (auto simp: passed_def split: if_splits)

lemma owner_passed: "k \<noteq> NaN \<Longrightarrow> up_to_key p \<noteq> NaN \<Longrightarrow> owner self k p = passed self k p"
  by (simp add: owner_def passed_def py_le_iff py_lt_iff)

lemma filter_downward:
  assumes "sorted_wrt (\<lambda>p q. up_to_key p < up_to_key q) xs"
    and "\<And>p q. up_to_key p < up_to_key q \<Longrightarrow> P q \<Longrightarrow> P p"
  shows "filter P xs = takeWhile P xs"
  using assms(1)
proof (induction xs)
  case Nil
  then show ?case by simp
next
  case (Cons x xs)
  show ?case
  proof (cases "P x")
    case True
    then show ?thesis using Cons by simp
  next
    case False
    have "\<forall>q\<in>set xs. \<not> P q"
      using Cons.prems False assms(2) by auto
    then have "filter P xs = []" by (simp add: filter_empty_conv)
    then show ?thesis using False by simp
  qed
qed

lemma between_count:
  assumes asc: "ascending xs" and le: "py_le a b"
  shows "length (filter (\<lambda>p. \<not> owner self a p \<and> owner self b p) xs) =
         search_op self xs b - search_op self xs a"
proof -
  let ?Pa = "passed self a" and ?Pb = "passed self b"
  have ab: "a \<le> b" "a \<noteq> NaN" "b \<noteq> NaN" using le by (simp_all add: py_le_iff)
  have srt: "sorted_wrt (\<lambda>p q. up_to_key p < up_to_key q) xs"
    and nn: "\<forall>p\<in>set xs. up_to_key p \<noteq> NaN"
    using asc by (simp_all add: ascending_iff)
  have own: "filter (\<lambda>p. \<not> owner self a p \<and> owner self b p) xs =
             filter (\<lambda>p. \<not> ?Pa p \<and> ?Pb p) xs"
    using nn ab by (intro filter_cong) (simp_all add: owner_passed)
  have imp: "\<And>p. ?Pa p \<Longrightarrow> ?Pb p"
    using ab(1) by (auto simp: passed_def split: if_splits)
  have fb: "filter ?Pb xs = takeWhile ?Pb xs"
    using srt by (rule filter_downward) (rule passed_down)
  have fa: "filter ?Pa xs = takeWhile ?Pa xs"
    using srt by (rule filter_downward) (rule passed_down)
  have "length (filter ?Pb xs) =
        length (filter (\<lambda>p. ?Pa p) (filter ?Pb xs)) + length (filter (\<lambda>p. \<not> ?Pa p) (filter ?Pb xs))"
    by (rule sum_length_filter_compl[symmetric])
  moreover have "filter (\<lambda>p. ?Pa p) (filter ?Pb xs) = filter ?Pa xs"
    using imp by (auto intro: filter_cong)
  moreover have "filter (\<lambda>p. \<not> ?Pa p) (filter ?Pb xs) = filter (\<lambda>p. \<not> ?Pa p \<and> ?Pb p) xs"
    by (simp add: conj_commute)
  ultimately have "length (filter (\<lambda>p. \<not> ?Pa p \<and> ?Pb p) xs) =
                   length (filter ?Pb xs) - length (filter ?Pa xs)"
    by simp
  then show ?thesis unfolding own using asc ab by (simp add: fa fb search_op_passed)
qed

lemma bisect_left_PInf:
  assumes "invar self"
  shows "bisect_left (data self) PInf = length (data self) - 1"
proof -
  let ?xs = "data self"
  from assms have srt: "sorted_wrt (\<lambda>p q. up_to_key p < up_to_key q) ?xs" and ne: "?xs \<noteq> []"
    and lst: "up_to_key (last ?xs) = PInf"
    by (auto simp: invar_iff)
  have split: "?xs = butlast ?xs @ [last ?xs]" using ne by simp
  have "sorted_wrt (\<lambda>p q. up_to_key p < up_to_key q) (butlast ?xs @ [last ?xs])"
    using srt split by simp
  then have "\<forall>p\<in>set (butlast ?xs). up_to_key p < PInf"
    using lst by (simp add: sorted_wrt_append)
  then have "takeWhile (\<lambda>p. up_to_key p < PInf) (butlast ?xs @ [last ?xs]) = butlast ?xs"
    using lst by (simp add: takeWhile_append)
  then have "takeWhile (\<lambda>p. up_to_key p < PInf) ?xs = butlast ?xs"
    using split by simp
  then show ?thesis
    by (simp add: bisect_left_eq[OF invar_ascending[OF assms]] index_ge_def)
qed

lemma bisect_right_PInf: "bisect_right xs PInf = length xs"
proof (cases "xs = []")
  case True
  then show ?thesis by (simp add: bisect_right_def maxes_def)
next
  case False
  have "\<not> py_lt PInf (up_to_key (last xs))" by (simp add: py_lt_iff not_PInf_less)
  then show ?thesis using False
    by (simp add: bisect_right_def maxes_def py_bisect_right_single)
qed

lemma search_op_in_range:
  assumes inv: "invar self" and ok: "include_policy self \<noteq> ''start'' \<or> py_lt b PInf"
  shows "search_op self (data self) b < length (data self)"
proof (cases "b < PInf")
  case True
  with inv have "dropWhile (passed self b) (data self) \<noteq> []" by (rule invar_passed_found)
  then have "length (takeWhile (passed self b) (data self)) < length (data self)"
    by (rule length_takeWhile_less)
  moreover have "include_policy self \<noteq> ''start'' \<or> b \<noteq> NaN"
    using ok by (auto simp: py_lt_iff)
  ultimately show ?thesis
    using invar_ascending[OF inv] by (simp add: search_op_passed)
next
  case False
  then have b: "b = PInf" by (cases b) auto
  with ok have "include_policy self \<noteq> ''start''" by simp
  then have "search_op self (data self) b = bisect_left (data self) PInf"
    by (simp add: search_op_def b)
  moreover have "data self \<noteq> []" using inv by (simp add: invar_def)
  ultimately show ?thesis using bisect_left_PInf[OF inv] by simp
qed

lemma search_op_NInf:
  assumes "invar self"
  shows "search_op self (data self) NInf = 0"
proof -
  from assms have ne: "data self \<noteq> []" and pos: "\<forall>p\<in>set (data self). NInf < up_to_key p"
    by (auto simp: invar_iff)
  then have "NInf < up_to_key (hd (data self))"
    by (simp add: hd_in_set)
  then have "\<not> passed self NInf (hd (data self))"
    using passed_le[of self NInf "hd (data self)"] by auto
  then have "takeWhile (passed self NInf) (data self) = []"
    using ne by (simp add: takeWhile_eq_Nil_iff)
  then show ?thesis using invar_ascending[OF assms] by (simp add: search_op_passed)
qed

lemma getitem_point:
  assumes inv: "invar self" and ok: "include_policy self \<noteq> ''start'' \<or> py_lt b PInf"
  shows "getitem self (Scalar b) = Inr (Single (pvalue (data self ! search_op self (data self) b)))"
proof -
  have ne: "data self \<noteq> []" using inv by (simp add: invar_def)
  have rng: "search_op self (data self) b < length (data self)"
    using inv ok by (rule search_op_in_range)
  show ?thesis
  proof (cases "b = NInf \<or> b = PInf")
    case False
    then show ?thesis using rng by (simp add: getitem_def getidx_nat)
  next
    case True
    then show ?thesis
    proof
      assume b: "b = NInf"
      have "getidx (data self) 0 = Inr (data self ! 0)" using ne by (simp add: getidx_def)
      then show ?thesis using b search_op_NInf[OF inv] by (simp add: getitem_def)
    next
      assume b: "b = PInf"
      have "getidx (data self) (- 1) = Inr (data self ! (length (data self) - 1))"
        using ne by (cases "data self") (simp_all add: getidx_def nat_add_distrib)
      moreover have "search_op self (data self) PInf = length (data self) - 1"
        using ok b bisect_left_PInf[OF inv] by (simp add: search_op_def)
      ultimately show ?thesis using b by (simp add: getitem_def)
    qed
  qed
qed

text \<open>
  Claim C9 says that every range query returns the values at the positions
  \<open>i1..i2\<close>, and so exactly \<open>i2 - i1 + 1\<close> values, one more than the number of
  intervals strictly between the bounds, the last of them the value that governs the
  end bound. Queries on the map after \<^verbatim>\<open>m[0:10] = "a"\<close> and \<^verbatim>\<open>m[10:20] = "b"\<close>, made
  with \<^verbatim>\<open>include="start"\<close>, show otherwise. For \<^verbatim>\<open>m[25:-5]\<close> the searches give \<open>i1 = 3\<close>
  and \<open>i2 = 0\<close>, \<^verbatim>\<open>range(3, 1)\<close> is empty and the result is the empty tuple: it has no
  last element, and its length 0 is not \<open>0 - 3 + 1\<close>. For \<^verbatim>\<open>m[12:inf]\<close> the query returns
  no tuple at all but raises \<^verbatim>\<open>IndexError\<close>, and for \<^verbatim>\<open>m[:5]\<close>, with no lower bound, it
  raises \<^verbatim>\<open>TypeError\<close>. \<^verbatim>\<open>m[5:15]\<close> returns the two values \<^verbatim>\<open>"a"\<close> and \<^verbatim>\<open>"b"\<close>, although no
  stored interval lies strictly between 5 and 15.
\<close>

theorem range_query_counterexample:
  "search_op (example_map ''start'') (data (example_map ''start'')) (Fin 25) = 3 \<and>
   search_op (example_map ''start'') (data (example_map ''start'')) (Fin (- 5)) = 0 \<and>
   getitem (example_map ''start'') (Slice (Some (Fin 25)) (Some (Fin (- 5)))) = Inr (Tuple []) \<and>
   getitem (example_map ''start'') (Slice (Some (Fin 12)) (Some PInf)) = Inl IndexError \<and>
   getitem (example_map ''start'') (Slice None (Some (Fin 5))) = Inl TypeError \<and>
   getitem (example_map ''start'') (Slice (Some (Fin 5)) (Some (Fin 15))) =
     Inr (Tuple [Some ''a'', Some ''b''])"
proof -
  have "getitem (example_map ''start'') (Slice None (Some (Fin 5))) = Inl TypeError"
    by (simp add: getitem_def search_key_def example_map_def)
  then show ?thesis
    unfolding getitem_slice example_search
    by (simp add: example_map_def upt_rec getidx_def)
qed

text \<open>
  Claim C9, amended. Take a state that satisfies the container invariants and a range
  query with both bounds given, other than one whose upper bound is \<^verbatim>\<open>inf\<close> or NaN on a
  map made with \<^verbatim>\<open>include="start"\<close> (the upper bound is \<^verbatim>\<open>< inf\<close> there). With \<open>i1\<close> and
  \<open>i2\<close> the indices the policy's search gives for the two bounds, \<open>i2\<close> is a position of
  the list and the query returns the tuple of the values at the positions from \<open>i1\<close> up
  to and including \<open>i2\<close>, in order (the empty tuple when \<open>i2 < i1\<close>). When moreover the
  lower bound is \<^verbatim>\<open><=\<close> the upper bound (so that neither is NaN), then \<open>i1 \<le> i2\<close>, the
  tuple has exactly \<open>i2 - i1 + 1\<close> values, which is one more than the number of entries
  whose key lies between the bounds (above the lower and up to the upper bound under
  \<^verbatim>\<open>"start"\<close>; from the lower bound up to, but not including, the upper bound otherwise),
  and its last element is the value the point query of the upper bound returns.
\<close>

theorem range_query_values:
  assumes inv: "invar self" and ok: "include_policy self \<noteq> ''start'' \<or> py_lt b PInf"
  shows "search_op self (data self) b < length (data self) \<and>
         getitem self (Slice (Some a) (Some b)) =
           Inr (Tuple (map (\<lambda>i. pvalue (data self ! i))
                  [search_op self (data self) a ..< search_op self (data self) b + 1])) \<and>
         (py_le a b \<longrightarrow>
            search_op self (data self) a \<le> search_op self (data self) b \<and>
            (\<exists>vs. getitem self (Slice (Some a) (Some b)) = Inr (Tuple vs) \<and>
                  int (length vs) =
                    int (search_op self (data self) b) - int (search_op self (data self) a) + 1 \<and>
                  length vs =
                    length (filter (\<lambda>p. \<not> owner self a p \<and> owner self b p) (data self)) + 1 \<and>
                  getitem self (Scalar b) = Inr (Single (last vs))))"
proof -
  let ?xs = "data self"
  let ?i1 = "search_op self ?xs a" and ?i2 = "search_op self ?xs b"
  let ?vs = "map (\<lambda>i. pvalue (?xs ! i)) [?i1 ..< ?i2 + 1]"
  have asc: "ascending ?xs" using inv by (rule invar_ascending)
  have i2: "?i2 < length ?xs" using inv ok by (rule search_op_in_range)
  then have "\<forall>i\<in>set [?i1 ..< ?i2 + 1]. i < length ?xs" by auto
  then have "values_at ?xs [?i1 ..< ?i2 + 1] = Inr ?vs" by (rule values_at_ok)
  then have get: "getitem self (Slice (Some a) (Some b)) = Inr (Tuple ?vs)"
    by (simp add: getitem_slice)
  have ordered: "?i1 \<le> ?i2 \<and>
        (\<exists>vs. getitem self (Slice (Some a) (Some b)) = Inr (Tuple vs) \<and>
              int (length vs) = int ?i2 - int ?i1 + 1 \<and>
              length vs = length (filter (\<lambda>p. \<not> owner self a p \<and> owner self b p) ?xs) + 1 \<and>
              getitem self (Scalar b) = Inr (Single (last vs)))"
    if le: "py_le a b"
  proof -
    have i12: "?i1 \<le> ?i2" using asc le by (rule search_op_mono)
    have len: "int (length ?vs) = int ?i2 - int ?i1 + 1" using i12 by simp
    have cnt: "length ?vs = length (filter (\<lambda>p. \<not> owner self a p \<and> owner self b p) ?xs) + 1"
      using between_count[OF asc le, of self] i12 by simp
    have "[?i1 ..< ?i2 + 1] = [?i1 ..< ?i2] @ [?i2]" using i12 by simp
    then have "last ?vs = pvalue (?xs ! ?i2)" by simp
    then have "getitem self (Scalar b) = Inr (Single (last ?vs))"
      using getitem_point[OF inv ok] by simp
    then show ?thesis using i12 get len cnt by blast
  qed
  show ?thesis using i2 get ordered by blast
qed

theorem range_query_values_witness:
  "getitem (example_map ''start'') (Slice (Some (Fin 5)) (Some (Fin 15))) =
     Inr (Tuple [Some ''a'', Some ''b'']) \<and>
   getitem (example_map ''start'') (Scalar (Fin 15)) = Inr (Single (Some ''b''))"
proof -
  have inv: "invar (example_map ''start'')"
    by (simp add: invar_def example_map_def)
  have ok: "include_policy (example_map ''start'') \<noteq> ''start'' \<or> py_lt (Fin 15) PInf"
    by simp
  note i1 = example_search(2) and i2 = example_search(4)
  have vs: "map (\<lambda>i. pvalue (data (example_map ''start'') ! i)) [1 ..< 2 + 1] =
            [Some ''a'', Some ''b'']"
    by (simp add: example_map_def upt_rec)
  from range_query_values[OF inv ok, of "Fin 5"] show ?thesis
    unfolding i1 i2 vs by auto
qed

text \<open>
  Claim C10. In a state that satisfies the container invariants, a range query whose
  upper bound is \<^verbatim>\<open>inf\<close> (the lower bound any key) behaves as follows. On a map made
  with \<^verbatim>\<open>include="start"\<close> the search gives \<open>i2\<close> equal to the number of entries, and
  the query, reading position \<open>i2\<close>, raises \<^verbatim>\<open>IndexError\<close> instead of returning a
  tuple. On a map made with \<^verbatim>\<open>include="end"\<close> the search gives a position of the list
  and the query returns a tuple.
\<close>

theorem range_query_open_end:
  assumes inv: "invar self"
  shows "(include_policy self = ''start'' \<longrightarrow>
            search_op self (data self) PInf = length (data self) \<and>
            getitem self (Slice (Some a) (Some PInf)) = Inl IndexError) \<and>
         (include_policy self = ''end'' \<longrightarrow>
            search_op self (data self) PInf < length (data self) \<and>
            (\<exists>vs. getitem self (Slice (Some a) (Some PInf)) = Inr (Tuple vs)))"
proof (intro conjI impI)
  assume st: "include_policy self = ''start''"
  show i2: "search_op self (data self) PInf = length (data self)"
    using st by (simp add: search_op_def bisect_right_PInf)
  have "search_op self (data self) a \<le> length (data self)"
    by (rule search_op_le_length)
  then have "\<exists>i\<in>set [search_op self (data self) a ..< length (data self) + 1].
               length (data self) \<le> i"
    by auto
  then have "values_at (data self) [search_op self (data self) a ..< length (data self) + 1]
             = Inl IndexError"
    by (rule values_at_err)
  then show "getitem self (Slice (Some a) (Some PInf)) = Inl IndexError"
    by (simp add: getitem_slice i2)
next
  assume en: "include_policy self = ''end''"
  then have ok: "include_policy self \<noteq> ''start'' \<or> py_lt PInf PInf" by simp
  show "search_op self (data self) PInf < length (data self)"
    using inv ok by (rule search_op_in_range)
  then have "\<forall>i\<in>set [search_op self (data self) a ..< search_op self (data self) PInf + 1].
               i < length (data self)"
    by auto
  then have "values_at (data self)
               [search_op self (data self) a ..< search_op self (data self) PInf + 1] =
             Inr (map (\<lambda>i. pvalue (data self ! i))
               [search_op self (data self) a ..< search_op self (data self) PInf + 1])"
    by (rule values_at_ok)
  then show "\<exists>vs. getitem self (Slice (Some a) (Some PInf)) = Inr (Tuple vs)"
    by (simp add: getitem_slice)
qed

theorem range_query_open_end_witness:
  "reachable (example_map ''start'') \<and> reachable (example_map ''end'') \<and>
   getitem (example_map ''start'') (Slice (Some (Fin 5)) (Some PInf)) = Inl IndexError \<and>
   search_op (example_map ''start'') (data (example_map ''start'')) PInf = 4 \<and>
   search_op (example_map ''end'') (data (example_map ''end'')) PInf = 3 \<and>
   getitem (example_map ''end'') (Slice (Some (Fin 5)) (Some PInf)) =
     Inr (Tuple [Some ''a'', Some ''b'', None])"
proof -
  have s: "invar (example_map ''start'')" and e: "invar (example_map ''end'')"
    by (simp_all add: invar_def example_map_def)
  have r: "reachable (example_map ''start'')" "reachable (example_map ''end'')"
    by (simp_all add: reachable_example)
  from range_query_open_end[OF s, of "Fin 5"] range_query_open_end[OF e, of "Fin 5"]
  have "getitem (example_map ''start'') (Slice (Some (Fin 5)) (Some PInf)) = Inl IndexError \<and>
        search_op (example_map ''start'') (data (example_map ''start'')) PInf = 4 \<and>
        search_op (example_map ''end'') (data (example_map ''end'')) PInf = 3 \<and>
        getitem (example_map ''end'') (Slice (Some (Fin 5)) (Some PInf)) =
          Inr (Tuple [Some ''a'', Some ''b'', None])"
    unfolding getitem_slice example_search
    by (simp add: example_map_def upt_rec getidx_def)
  with r show ?thesis by simp
qed

end
